theory Spec2Isabelle
  imports Main "HOL-Library.Word"
begin

unbundle bit_operations_syntax

section \<open>Data model\<close>

text \<open>
  The controller of \<^verbatim>\<open>src/can2040.c\<close> works on 32-bit unsigned integers; they are
  modelled as \<open>32 word\<close>, so that \<open>+\<close> and \<open>-\<close> wrap around as in C. A C shift
  \<^verbatim>\<open>x << n\<close> is \<open>push_bit n x\<close> and \<^verbatim>\<open>x >> n\<close> is \<open>drop_bit n x\<close>. A shift by 32 or
  more is undefined in C; \<open>push_bit\<close> and \<open>drop_bit\<close> give 0 there, as the shifts by a
  register of the Cortex-M0+ do. The program itself only shifts by less than 32.
\<close>

type_synonym u8 = "8 word"
type_synonym u32 = "32 word"

text \<open>
  Modelled from the spec: the header \<^verbatim>\<open>can2040.h\<close>, which declares the structures, is
  missing. A frame holds an identifier, a data length code and eight payload bytes (\<open>d1\<close>),
  which the code also reads as two 32-bit words (\<open>d4\<close>); the rp2040 is little-endian.
\<close>

record can2040_msg =
  addr :: u32
  data_len :: u32
  d1 :: "u8 list"

definition d4 :: "can2040_msg \<Rightarrow> nat \<Rightarrow> u32" where
  "d4 m k = (ucast (d1 m ! (4 * k)) OR push_bit 8 (ucast (d1 m ! (4 * k + 1)))
             OR push_bit 16 (ucast (d1 m ! (4 * k + 2)))
             OR push_bit 24 (ucast (d1 m ! (4 * k + 3))))"

definition zero_msg :: can2040_msg where
  "zero_msg = \<lparr>addr = 0, data_len = 0, d1 = replicate 8 0\<rparr>"

record can2040_bitunstuffer =
  stuffed_bits :: u32
  count_stuff :: u32
  unstuffed_bits :: u32
  count_unstuff :: u32

text \<open>
  Modelled from the spec: a transmit slot is a frame, its CRC, the stuffed bit stream as an
  array of 32-bit words and the number of valid words. The array is a list; its C size
  \<^verbatim>\<open>ARRAY_SIZE(stuffed_data)\<close> is the length of the list.
\<close>

record can2040_transmit =
  msg :: can2040_msg
  crc :: u32
  stuffed_words :: u32
  stuffed_data :: "u32 list"

datatype ms_state = MS_START | MS_DATA | MS_CRC | MS_ACK | MS_EOF | MS_DISCARD

text \<open>
  The callback \<^verbatim>\<open>rx_cb\<close> and the writes to the PIO registers are the outputs of the
  controller. Each is recorded as an event; the controller carries the list of the events
  so far, the most recent first.
\<close>

datatype notify = ID_RX | ID_TX | ID_TX_FAIL | ID_ERROR u32

datatype event =
    Rx_cb notify can2040_msg
  | Pio_tx_send "u32 list"
  | Pio_tx_cancel
  | Pio_ack_inject u32
  | Pio_ack_cancel
  | Pio_sync_setup
  | Pio_sm_setup
  | Pio_idle_irq bool

text \<open>
  Modelled from the spec: the controller aggregates the unstuffer, the parser state, the
  scheduler's \<open>in_transmit\<close> and \<open>cancel_count\<close>, the two queue counters and the queue.
  \<^verbatim>\<open>ARRAY_SIZE(cd->tx_queue)\<close> is the length of \<open>tx_queue\<close>. The field \<open>rx_stall\<close> stands
  for the RX-stall flag of the PIO debug register, which the hardware sets.
\<close>

record can2040 =
  unstuf :: can2040_bitunstuffer
  raw_bit_count :: u32
  parse_state :: ms_state
  parse_crc :: u32
  parse_hdr :: u32
  parse_datapos :: u32
  parse_msg :: can2040_msg
  in_transmit :: u32
  cancel_count :: u32
  tx_pull_pos :: u32
  tx_push_pos :: u32
  tx_queue :: "can2040_transmit list"
  rx_stall :: bool
  events :: "event list"

definition emit :: "event \<Rightarrow> can2040 \<Rightarrow> can2040" where
  "emit e cd = cd\<lparr>events := e # events cd\<rparr>"

section \<open>PIO driver\<close>

definition pio_sync_setup :: "can2040 \<Rightarrow> can2040" where
  "pio_sync_setup cd = emit Pio_sync_setup cd"

definition pio_sm_setup :: "can2040 \<Rightarrow> can2040" where
  "pio_sm_setup cd = emit Pio_sm_setup cd"

text \<open>\<^verbatim>\<open>pio_tx_send\<close> writes the first \<open>count\<close> words of \<open>data\<close> to the TX FIFO.\<close>

definition pio_tx_send :: "can2040 \<Rightarrow> u32 list \<Rightarrow> u32 \<Rightarrow> can2040" where
  "pio_tx_send cd data count = emit (Pio_tx_send (take (unat count) data)) cd"

definition pio_tx_cancel :: "can2040 \<Rightarrow> can2040" where
  "pio_tx_cancel cd = emit Pio_tx_cancel cd"

definition pio_ack_inject :: "can2040 \<Rightarrow> u32 \<Rightarrow> u32 \<Rightarrow> can2040" where
  "pio_ack_inject cd crc_bits rx_bit_pos =
     (let key = (crc_bits AND 0x1fffff) OR push_bit 21 (- rx_bit_pos)
      in emit (Pio_ack_inject key) cd)"

definition pio_ack_cancel :: "can2040 \<Rightarrow> can2040" where
  "pio_ack_cancel cd = emit Pio_ack_cancel cd"

definition pio_rx_check_stall :: "can2040 \<Rightarrow> bool" where
  "pio_rx_check_stall cd = rx_stall cd"

definition pio_sync_enable_idle_irq :: "can2040 \<Rightarrow> can2040" where
  "pio_sync_enable_idle_irq cd = emit (Pio_idle_irq True) cd"

definition pio_sync_disable_idle_irq :: "can2040 \<Rightarrow> can2040" where
  "pio_sync_disable_idle_irq cd = emit (Pio_idle_irq False) cd"

section \<open>CRC calculation\<close>

text \<open>The loop variable \<open>i\<close> is a C \<^verbatim>\<open>int\<close> that runs from \<open>count - 1\<close> down to 0.\<close>

function crcbits_loop :: "u32 \<Rightarrow> u32 \<Rightarrow> int \<Rightarrow> u32" where
  "crcbits_loop c data i =
     (if i < 0 then c
      else let b = drop_bit (nat i) data AND 1
           in crcbits_loop (if (drop_bit 14 c AND 1) XOR b \<noteq> 0
                            then push_bit 1 c XOR 0x4599 else push_bit 1 c) data (i - 1))"
  by pat_completeness auto
termination
  by (relation "measure (\<lambda>(c, data, i). nat (i + 1))") auto

declare crcbits_loop.simps [simp del]

definition crcbits :: "u32 \<Rightarrow> u32 \<Rightarrow> u32 \<Rightarrow> u32" where
  "crcbits c data count = crcbits_loop c data (sint (count - 1))"

section \<open>Bit unstuffing\<close>

definition unstuf_add_bits :: "can2040_bitunstuffer \<Rightarrow> u32 \<Rightarrow> u32 \<Rightarrow> can2040_bitunstuffer" where
  "unstuf_add_bits bu data count =
     (let mask = push_bit (unat count) 1 - 1
      in bu\<lparr>stuffed_bits := push_bit (unat count) (stuffed_bits bu) OR (data AND mask),
            count_stuff := count\<rparr>)"

definition unstuf_set_count :: "can2040_bitunstuffer \<Rightarrow> u32 \<Rightarrow> can2040_bitunstuffer" where
  "unstuf_set_count bu count = bu\<lparr>unstuffed_bits := 0, count_unstuff := count\<rparr>"

definition unstuf_clear_state :: "can2040_bitunstuffer \<Rightarrow> can2040_bitunstuffer" where
  "unstuf_clear_state bu =
     (let sb = stuffed_bits bu; edges = sb XOR drop_bit 1 sb;
          cs = count_stuff bu; re = drop_bit (unat cs) edges
      in if re AND 1 = 0 \<and> re AND 0xf \<noteq> 0
         then bu\<lparr>stuffed_bits := stuffed_bits bu XOR push_bit (unat cs) 1\<rparr>
         else bu)"

text \<open>
  The loop of \<^verbatim>\<open>unstuf_pull_bits\<close> over the local variables \<open>ub\<close>, \<open>cs\<close> and \<open>cu\<close>; it
  returns the return code with their final values.
\<close>

function unstuf_pull_loop :: "u32 \<Rightarrow> u32 \<Rightarrow> u32 \<Rightarrow> u32 \<Rightarrow> u32 \<Rightarrow> int \<times> u32 \<times> u32 \<times> u32" where
  "unstuf_pull_loop sb edges ub cs cu =
     (if cu = 0 then (0, ub, cs, cu)
      else if cs = 0 then (1, ub, cs, cu)
      else let cs' = cs - 1 in
        if drop_bit (unat (cs' + 1)) edges AND 0xf \<noteq> 0
        then let cu' = cu - 1;
                 ub' = ub OR push_bit (unat cu') (drop_bit (unat cs') sb AND 1)
             in unstuf_pull_loop sb edges ub' cs' cu'
        else if drop_bit (unat cs') edges AND 0x1f = 0
        then (if drop_bit (unat cs') sb AND 1 \<noteq> 0 then - 1 else - 2, ub, cs', cu)
        else unstuf_pull_loop sb edges ub cs' cu)"
  by pat_completeness auto
termination
  by (relation "measure (\<lambda>(sb, edges, ub, cs, cu). unat cs)")
     (auto simp: unat_minus_one unat_gt_0)

declare unstuf_pull_loop.simps [simp del]

definition unstuf_pull_bits :: "can2040_bitunstuffer \<Rightarrow> int \<times> can2040_bitunstuffer" where
  "unstuf_pull_bits bu =
     (let sb = stuffed_bits bu; edges = sb XOR drop_bit 1 sb;
          r = unstuf_pull_loop sb edges (unstuffed_bits bu) (count_stuff bu) (count_unstuff bu);
          ret = fst r; ub = fst (snd r); cs = fst (snd (snd r)); cu = snd (snd (snd r))
      in (ret, bu\<lparr>unstuffed_bits := ub, count_stuff := cs, count_unstuff := cu\<rparr>))"

section \<open>Bit stuffing\<close>

function bitstuff_loop :: "u32 \<Rightarrow> u32 \<Rightarrow> u32 \<Rightarrow> int \<Rightarrow> u32 \<times> u32" where
  "bitstuff_loop b edges count i =
     (if i < 0 then (b, count)
      else if drop_bit (nat i) edges AND 0xf = 0
      then let mask = push_bit (nat (i + 1)) 1 - 1;
               low = b AND mask;
               high = push_bit 1 (b AND NOT (drop_bit 1 mask));
               b' = high XOR low XOR push_bit (nat i) 1
           in bitstuff_loop b' (b' XOR drop_bit 1 b') (count + 1) (i - 3 - 1)
      else bitstuff_loop b edges count (i - 1))"
  by pat_completeness auto
termination
  by (relation "measure (\<lambda>(b, edges, count, i). nat (i + 1))") auto

declare bitstuff_loop.simps [simp del]

text \<open>\<^verbatim>\<open>bitstuff\<close> returns the new bit count and the stuffed word it stores through \<open>pb\<close>.\<close>

definition bitstuff :: "u32 \<Rightarrow> u32 \<Rightarrow> u32 \<times> u32" where
  "bitstuff pb num_bits =
     (let b = pb; edges = b XOR drop_bit 1 b
      in bitstuff_loop b edges num_bits (sint (num_bits - 1)))"

text \<open>
  The field \<open>buf\<close> of \<^verbatim>\<open>struct bitstuffer_s\<close> points to the slot's \<open>stuffed_data\<close>; the model
  carries the array itself and \<^verbatim>\<open>can2040_transmit\<close> stores it back into the slot. A write
  beyond the end of the array is undefined in C; the list update leaves the list unchanged
  there. The CRC field is named \<open>bs_crc\<close>, since \<open>crc\<close> is a field of the transmit slot.
\<close>

record bitstuffer_s =
  prev_stuffed :: u32
  bitpos :: u32
  buf :: "u32 list"
  bs_crc :: u32

definition bs_pushraw :: "bitstuffer_s \<Rightarrow> u32 \<Rightarrow> u32 \<Rightarrow> bitstuffer_s" where
  "bs_pushraw bs data count =
     (let bp = bitpos bs;
          wp = unat (bp div 32); bitused = bp mod 32; bitavail = 32 - bitused;
          fb = buf bs
      in if bitavail \<ge> count
         then bs\<lparr>buf := fb[wp := fb ! wp OR push_bit (unat (bitavail - count)) data],
                 bitpos := bp + count\<rparr>
         else let fb1 = fb[wp := fb ! wp OR drop_bit (unat (count - bitavail)) data];
                  fb2 = fb1[wp + 1 := fb1 ! (wp + 1)
                              OR push_bit (unat (32 - (count - bitavail))) data]
              in bs\<lparr>buf := fb2, bitpos := bp + count\<rparr>)"

definition bs_push :: "bitstuffer_s \<Rightarrow> u32 \<Rightarrow> u32 \<Rightarrow> bitstuffer_s" where
  "bs_push bs data0 count =
     (let data = data0 AND (push_bit (unat count) 1 - 1);
          bs1 = bs\<lparr>bs_crc := crcbits (bs_crc bs) data count\<rparr>;
          stuf0 = push_bit (unat count) (prev_stuffed bs1) OR data;
          r = bitstuff stuf0 count; stuf = fst r; newcount = snd r
      in (bs_pushraw bs1 stuf newcount)\<lparr>prev_stuffed := stuf\<rparr>)"

text \<open>\<^verbatim>\<open>bs_finalize\<close> returns the number of words with the padded buffer.\<close>

definition bs_finalize :: "bitstuffer_s \<Rightarrow> u32 \<times> bitstuffer_s" where
  "bs_finalize bs =
     (let bp = bitpos bs;
          words = (bp + 32 - 1) div 32;
          extra = words * 32 - bp
      in if extra \<noteq> 0
         then (words, bs\<lparr>buf := (buf bs)[unat (words - 1) :=
                              buf bs ! unat (words - 1) OR (push_bit (unat extra) 1 - 1)]\<rparr>)
         else (words, bs))"

section \<open>Notification callbacks\<close>

definition report_error :: "can2040 \<Rightarrow> u32 \<Rightarrow> can2040" where
  "report_error cd error_code = emit (Rx_cb (ID_ERROR error_code) zero_msg) cd"

definition report_rx_msg :: "can2040 \<Rightarrow> can2040" where
  "report_rx_msg cd = emit (Rx_cb ID_RX (parse_msg cd)) cd"

definition report_tx_msg :: "can2040 \<Rightarrow> can2040_msg \<Rightarrow> can2040" where
  "report_tx_msg cd m = emit (Rx_cb ID_TX m) cd"

definition report_tx_fail :: "can2040 \<Rightarrow> can2040_msg \<Rightarrow> can2040" where
  "report_tx_fail cd m = emit (Rx_cb ID_TX_FAIL m) cd"

section \<open>Transmit\<close>

definition tx_qpos :: "can2040 \<Rightarrow> u32 \<Rightarrow> nat" where
  "tx_qpos cd pos = unat pos mod length (tx_queue cd)"

definition tx_do_schedule :: "can2040 \<Rightarrow> can2040" where
  "tx_do_schedule cd =
     (if in_transmit cd \<noteq> 0 \<or> tx_push_pos cd = tx_pull_pos cd then cd
      else let cd1 = (if cancel_count cd > 32
                      then let cd' = cd\<lparr>cancel_count := 0\<rparr>;
                               pull = tx_pull_pos cd';
                               cd'' = cd'\<lparr>tx_pull_pos := tx_pull_pos cd' + 1\<rparr>
                           in report_tx_fail cd'' (msg (tx_queue cd'' ! tx_qpos cd'' pull))
                      else cd);
               cd2 = cd1\<lparr>in_transmit := 1\<rparr>;
               qt = tx_queue cd2 ! tx_qpos cd2 (tx_pull_pos cd2)
           in pio_tx_send cd2 (stuffed_data qt) (stuffed_words qt))"

definition tx_cancel :: "can2040 \<Rightarrow> can2040" where
  "tx_cancel cd = pio_tx_cancel (cd\<lparr>in_transmit := 0, cancel_count := cancel_count cd + 1\<rparr>)"

text \<open>\<^verbatim>\<open>tx_check_self_transmit\<close> returns its result with the controller, which it may cancel.\<close>

definition tx_check_self_transmit :: "can2040 \<Rightarrow> bool \<times> can2040" where
  "tx_check_self_transmit cd =
     (if in_transmit cd = 0 then (False, cd)
      else let qt = tx_queue cd ! tx_qpos cd (tx_pull_pos cd); pm = parse_msg cd
           in if crc qt = parse_crc cd
                 \<and> addr (msg qt) = addr pm \<and> data_len (msg qt) = data_len pm
                 \<and> d4 (msg qt) 0 = d4 pm 0 \<and> d4 (msg qt) 1 = d4 pm 1
              then (True, cd)
              else (False, tx_cancel cd))"

definition tx_finalize :: "can2040 \<Rightarrow> can2040" where
  "tx_finalize cd =
     (let cd1 = (tx_cancel cd)\<lparr>cancel_count := 0\<rparr>;
          pull = tx_pull_pos cd1;
          cd2 = cd1\<lparr>tx_pull_pos := tx_pull_pos cd1 + 1\<rparr>
      in report_tx_msg cd2 (msg (tx_queue cd2 ! tx_qpos cd2 pull)))"

section \<open>Input state tracking\<close>

definition set_count :: "can2040 \<Rightarrow> u32 \<Rightarrow> can2040" where
  "set_count cd n = cd\<lparr>unstuf := unstuf_set_count (unstuf cd) n\<rparr>"

definition data_state_go_discard :: "can2040 \<Rightarrow> can2040" where
  "data_state_go_discard cd =
     pio_sync_enable_idle_irq (tx_cancel (set_count (cd\<lparr>parse_state := MS_DISCARD\<rparr>) 8))"

definition data_state_go_error :: "can2040 \<Rightarrow> can2040" where
  "data_state_go_error cd = data_state_go_discard cd"

definition data_state_go_idle :: "can2040 \<Rightarrow> can2040" where
  "data_state_go_idle cd =
     (if parse_state cd = MS_START
      then if count_stuff (unstuf cd) = 0 \<and> stuffed_bits (unstuf cd) = 0xffffffff
           then let cd1 = pio_sync_setup cd;
                    cd2 = cd1\<lparr>unstuf := (unstuf cd1)\<lparr>stuffed_bits := 0\<rparr>\<rparr>
                in data_state_go_discard cd2
           else set_count cd 18
      else let cd1 = pio_sync_disable_idle_irq cd;
               cd2 = (if parse_state cd1 = MS_EOF
                      then let ub = unstuffed_bits (unstuf cd1); cu = count_unstuff (unstuf cd1)
                           in if drop_bit (unat cu) ub + 1 = push_bit (unat (6 - cu)) 1
                              then let r = tx_check_self_transmit cd1
                                   in if fst r then tx_finalize (snd r)
                                      else report_rx_msg (snd r)
                              else cd1
                      else cd1);
               cd3 = tx_do_schedule (pio_ack_cancel cd2)
           in set_count (cd3\<lparr>parse_state := MS_START\<rparr>) 18)"

definition data_state_go_crc :: "can2040 \<Rightarrow> can2040" where
  "data_state_go_crc cd =
     (let cd1 = set_count (cd\<lparr>parse_state := MS_CRC\<rparr>) 15;
          cd2 = cd1\<lparr>parse_crc := parse_crc cd1 AND 0x7fff\<rparr>;
          r = tx_check_self_transmit cd2; cd3 = snd r
      in if fst r then cd3
         else let cs = count_stuff (unstuf cd3);
                  last0 = push_bit 15 (drop_bit (unat cs) (stuffed_bits (unstuf cd3)))
                            OR parse_crc cd3;
                  st = bitstuff last0 (15 + 1); last1 = fst st;
                  count = snd st - 1;
                  last2 = push_bit 1 last1 OR 1;
                  pos = raw_bit_count cd3 - cs - 1
              in pio_ack_inject cd3 last2 (pos + count + 1))"

definition data_state_update_start :: "can2040 \<Rightarrow> u32 \<Rightarrow> can2040" where
  "data_state_update_start cd data =
     (if data AND (push_bit 18 1 OR push_bit 4 7) \<noteq> 0
      then data_state_go_discard cd
      else let rdlc = data AND 0xf; dlc = (if rdlc > 8 then 8 else rdlc);
               cd1 = cd\<lparr>parse_hdr := data, parse_crc := crcbits 0 data 18,
                        parse_msg := \<lparr>addr = drop_bit 7 data AND 0x7ff, data_len = dlc,
                                      d1 = replicate 8 0\<rparr>,
                        parse_datapos := 0\<rparr>;
               cd2 = (if parse_datapos cd1 \<ge> dlc then data_state_go_crc cd1
                      else set_count (cd1\<lparr>parse_state := MS_DATA\<rparr>) 8)
           in pio_sync_enable_idle_irq cd2)"

text \<open>
  The store \<^verbatim>\<open>d1[parse_datapos++] = data\<close> truncates \<open>data\<close> to a byte. An index of 8 or
  more is outside the array (undefined in C); the list update does nothing there.
\<close>

definition data_state_update_data :: "can2040 \<Rightarrow> u32 \<Rightarrow> can2040" where
  "data_state_update_data cd data =
     (let cd1 = cd\<lparr>parse_crc := crcbits (parse_crc cd) data 8\<rparr>;
          pm = parse_msg cd1;
          cd2 = cd1\<lparr>parse_msg := pm\<lparr>d1 := (d1 pm)[unat (parse_datapos cd1) := ucast data]\<rparr>,
                   parse_datapos := parse_datapos cd1 + 1\<rparr>
      in if parse_datapos cd2 \<ge> data_len (parse_msg cd2) then data_state_go_crc cd2
         else set_count cd2 8)"

definition data_state_update_crc :: "can2040 \<Rightarrow> u32 \<Rightarrow> can2040" where
  "data_state_update_crc cd data =
     (if parse_crc cd \<noteq> data then data_state_go_discard (pio_ack_cancel cd)
      else let cd1 = cd\<lparr>parse_state := MS_ACK\<rparr>;
               cd2 = cd1\<lparr>unstuf := unstuf_clear_state (unstuf cd1)\<rparr>
           in set_count cd2 2)"

definition data_state_update_ack :: "can2040 \<Rightarrow> u32 \<Rightarrow> can2040" where
  "data_state_update_ack cd data =
     (let cd1 = pio_ack_cancel cd
      in if data \<noteq> 0x02
         then let cd2 = data_state_go_discard cd1
              in if pio_rx_check_stall cd2 then report_error (pio_sm_setup cd2) 0 else cd2
         else set_count (cd1\<lparr>parse_state := MS_EOF\<rparr>) 6)"

definition data_state_update_eof :: "can2040 \<Rightarrow> u32 \<Rightarrow> can2040" where
  "data_state_update_eof cd data = data_state_go_discard cd"

definition data_state_update_discard :: "can2040 \<Rightarrow> u32 \<Rightarrow> can2040" where
  "data_state_update_discard cd data = data_state_go_discard cd"

definition data_state_update :: "can2040 \<Rightarrow> u32 \<Rightarrow> can2040" where
  "data_state_update cd data =
     (case parse_state cd of
        MS_START \<Rightarrow> data_state_update_start cd data
      | MS_DATA \<Rightarrow> data_state_update_data cd data
      | MS_CRC \<Rightarrow> data_state_update_crc cd data
      | MS_ACK \<Rightarrow> data_state_update_ack cd data
      | MS_EOF \<Rightarrow> data_state_update_eof cd data
      | MS_DISCARD \<Rightarrow> data_state_update_discard cd data)"

section \<open>Input processing\<close>

text \<open>
  The loop of \<^verbatim>\<open>process_rx\<close> runs until \<^verbatim>\<open>unstuf_pull_bits\<close> asks for more data. It
  terminates: each round consumes a raw bit, or starts a field of at least two bits after
  one was completed.
\<close>

lemma unstuf_pull_loop_result:
  "unstuf_pull_loop sb edges ub cs cu = (ret, ub', cs', cu') \<Longrightarrow>
     unat cs' \<le> unat cs \<and> (ret = 0 \<longrightarrow> cu' = 0 \<and> (cu \<noteq> 0 \<longrightarrow> unat cs' < unat cs))
     \<and> (ret = 1 \<longrightarrow> cs' = 0 \<and> cu' \<noteq> 0) \<and> (ret < 0 \<longrightarrow> unat cs' < unat cs \<and> cu' \<noteq> 0)
     \<and> ret \<in> {0, 1, - 1, - 2}"
proof (induction sb edges ub cs cu rule: unstuf_pull_loop.induct)
  case (1 sb edges ub cs cu)
  note eq = unstuf_pull_loop.simps[of sb edges ub cs cu]
  show ?case
  proof (cases "cu = 0")
    case True
    with "1.prems" eq show ?thesis by simp
  next
    case cu: False
    show ?thesis
    proof (cases "cs = 0")
      case True
      with cu "1.prems" eq show ?thesis by simp
    next
      case cs: False
      have lt: "unat (cs - 1) < unat cs"
        using cs by (simp add: unat_minus_one unat_gt_0)
      show ?thesis
      proof (cases "drop_bit (unat (cs - 1 + 1)) edges AND 0xf \<noteq> 0")
        case True
        with cu cs "1.prems" eq
        have "unstuf_pull_loop sb edges
                (ub OR push_bit (unat (cu - 1)) (drop_bit (unat (cs - 1)) sb AND 1))
                (cs - 1) (cu - 1) = (ret, ub', cs', cu')"
          by (simp add: Let_def)
        from "1.IH"(1)[OF cu cs refl True refl refl this] lt show ?thesis by auto
      next
        case n: False
        show ?thesis
        proof (cases "drop_bit (unat (cs - 1)) edges AND 0x1f = 0")
          case True
          with n cu cs "1.prems" eq lt show ?thesis
            by (auto simp: Let_def split: if_splits)
        next
          case False
          with n cu cs "1.prems" eq
          have "unstuf_pull_loop sb edges ub (cs - 1) cu = (ret, ub', cs', cu')"
            by (simp add: Let_def)
          from "1.IH"(2)[OF cu cs refl n False this] lt show ?thesis by auto
        qed
      qed
    qed
  qed
qed

lemma unstuf_pull_bits_result:
  assumes "unstuf_pull_bits bu = (ret, bu')"
  shows "unat (count_stuff bu') \<le> unat (count_stuff bu)"
    and "ret = 0 \<Longrightarrow> count_unstuff bu' = 0"
    and "ret = 0 \<Longrightarrow> count_unstuff bu \<noteq> 0 \<Longrightarrow> unat (count_stuff bu') < unat (count_stuff bu)"
    and "ret = 1 \<Longrightarrow> count_stuff bu' = 0 \<and> count_unstuff bu' \<noteq> 0"
    and "ret < 0 \<Longrightarrow> unat (count_stuff bu') < unat (count_stuff bu) \<and> count_unstuff bu' \<noteq> 0"
    and "ret \<in> {0, 1, - 1, - 2}"
proof -
  obtain ub' cs' cu' where
    loop: "unstuf_pull_loop (stuffed_bits bu) (stuffed_bits bu XOR drop_bit 1 (stuffed_bits bu))
             (unstuffed_bits bu) (count_stuff bu) (count_unstuff bu) = (ret, ub', cs', cu')"
    and bu': "bu' = bu\<lparr>unstuffed_bits := ub', count_stuff := cs', count_unstuff := cu'\<rparr>"
    using assms
    by (cases "unstuf_pull_loop (stuffed_bits bu) (stuffed_bits bu XOR drop_bit 1 (stuffed_bits bu))
                 (unstuffed_bits bu) (count_stuff bu) (count_unstuff bu)")
       (auto simp: unstuf_pull_bits_def Let_def)
  note res = unstuf_pull_loop_result[OF loop]
  show "unat (count_stuff bu') \<le> unat (count_stuff bu)"
    using res bu' by simp
  show "ret = 0 \<Longrightarrow> count_unstuff bu' = 0"
    using res bu' by simp
  show "ret = 0 \<Longrightarrow> count_unstuff bu \<noteq> 0 \<Longrightarrow> unat (count_stuff bu') < unat (count_stuff bu)"
    using res bu' by simp
  show "ret = 1 \<Longrightarrow> count_stuff bu' = 0 \<and> count_unstuff bu' \<noteq> 0"
    using res bu' by simp
  show "ret < 0 \<Longrightarrow> unat (count_stuff bu') < unat (count_stuff bu) \<and> count_unstuff bu' \<noteq> 0"
    using res bu' by simp
  show "ret \<in> {0, 1, - 1, - 2}"
    using res by simp
qed

lemma unstuf_emit [simp]: "unstuf (emit e cd) = unstuf cd"
  by (simp add: emit_def)

lemma unstuf_set_count [simp]: "unstuf (set_count cd n) = unstuf_set_count (unstuf cd) n"
  by (simp add: set_count_def)

lemma unstuf_set_count_fields [simp]:
  "stuffed_bits (unstuf_set_count bu n) = stuffed_bits bu"
  "count_stuff (unstuf_set_count bu n) = count_stuff bu"
  "unstuffed_bits (unstuf_set_count bu n) = 0"
  "count_unstuff (unstuf_set_count bu n) = n"
  by (simp_all add: unstuf_set_count_def)

lemma unstuf_tx_cancel [simp]: "unstuf (tx_cancel cd) = unstuf cd"
  by (simp add: tx_cancel_def pio_tx_cancel_def)

lemma unstuf_tx_do_schedule [simp]: "unstuf (tx_do_schedule cd) = unstuf cd"
  by (simp add: tx_do_schedule_def pio_tx_send_def report_tx_fail_def Let_def)

lemma unstuf_tx_finalize [simp]: "unstuf (tx_finalize cd) = unstuf cd"
  by (simp add: tx_finalize_def report_tx_msg_def Let_def)

lemma tx_check_self_transmit_cases:
  "tx_check_self_transmit cd = (True, cd) \<or> tx_check_self_transmit cd = (False, cd)
   \<or> tx_check_self_transmit cd = (False, tx_cancel cd)"
  by (simp add: tx_check_self_transmit_def Let_def)

lemma unstuf_go_discard [simp]:
  "unstuf (data_state_go_discard cd) = unstuf_set_count (unstuf cd) 8"
  by (simp add: data_state_go_discard_def pio_sync_enable_idle_irq_def)

lemma unstuf_go_crc [simp]:
  "unstuf (data_state_go_crc cd) = unstuf_set_count (unstuf cd) 15"
  using tx_check_self_transmit_cases[of "set_count (cd\<lparr>parse_state := MS_CRC\<rparr>) 15
      \<lparr>parse_crc := parse_crc (set_count (cd\<lparr>parse_state := MS_CRC\<rparr>) 15) AND 0x7fff\<rparr>"]
  by (auto simp: data_state_go_crc_def Let_def pio_ack_inject_def)

lemma count_stuff_go_idle [simp]:
  "count_stuff (unstuf (data_state_go_idle cd)) = count_stuff (unstuf cd)"
  using tx_check_self_transmit_cases[of "pio_sync_disable_idle_irq cd"]
  by (auto simp: data_state_go_idle_def Let_def pio_sync_setup_def pio_sync_disable_idle_irq_def
        pio_ack_cancel_def report_rx_msg_def)

lemma counts_data_state_update:
  "count_stuff (unstuf (data_state_update cd data)) = count_stuff (unstuf cd)"
  "count_unstuff (unstuf (data_state_update cd data)) \<noteq> 0"
  by (auto simp: data_state_update_def data_state_update_start_def data_state_update_data_def
        data_state_update_crc_def data_state_update_ack_def data_state_update_eof_def
        data_state_update_discard_def Let_def pio_sync_enable_idle_irq_def pio_ack_cancel_def
        pio_sm_setup_def report_error_def unstuf_clear_state_def
        split: ms_state.splits)

function process_rx_loop :: "can2040 \<Rightarrow> can2040" where
  "process_rx_loop cd =
     (let r = unstuf_pull_bits (unstuf cd); ret = fst r;
          cd1 = cd\<lparr>unstuf := snd r\<rparr> in
        if ret = 0 then process_rx_loop (data_state_update cd1 (unstuffed_bits (unstuf cd1)))
        else if ret > 0 then cd1
        else if ret = - 1 then process_rx_loop (data_state_go_idle cd1)
        else process_rx_loop (data_state_go_error cd1))"
  by pat_completeness auto
termination
proof (relation "measure (\<lambda>cd. 2 * unat (count_stuff (unstuf cd))
                             + (if count_unstuff (unstuf cd) = 0 then 1 else 0))", goal_cases)
  case 1
  show ?case by simp
next
  case (2 cd r ret cd1)
  then have eq: "unstuf_pull_bits (unstuf cd) = (ret, snd r)"
    by (metis prod.collapse)
  from 2 show ?case
    using unstuf_pull_bits_result[OF eq]
      counts_data_state_update[of cd1 "unstuffed_bits (unstuf cd1)"]
    by (cases "count_unstuff (unstuf cd) = 0") auto
next
  case (3 cd r ret cd1)
  then have eq: "unstuf_pull_bits (unstuf cd) = (ret, snd r)"
    by (metis prod.collapse)
  from 3 show ?case
    using unstuf_pull_bits_result[OF eq] by auto
next
  case (4 cd r ret cd1)
  then have eq: "unstuf_pull_bits (unstuf cd) = (ret, snd r)"
    by (metis prod.collapse)
  from 4 show ?case
    using unstuf_pull_bits_result[OF eq]
    by (auto simp: data_state_go_error_def)
qed

declare process_rx_loop.simps [simp del]

definition process_rx :: "can2040 \<Rightarrow> u32 \<Rightarrow> can2040" where
  "process_rx cd rx_byte =
     process_rx_loop (cd\<lparr>unstuf := unstuf_add_bits (unstuf cd) rx_byte 8,
                         raw_bit_count := raw_bit_count cd + 8\<rparr>)"

text \<open>
  The DMA interrupt handler. Its inputs from the hardware are: whether the PIO handler forced
  the interrupt (\<open>forced\<close>), whether the sync state machine signals an idle bus (\<open>idle\<close>), and
  the bytes that the DMA channel delivers while the handler runs.
\<close>

primrec process_rx_bytes :: "can2040 \<Rightarrow> u8 list \<Rightarrow> can2040" where
  "process_rx_bytes cd [] = cd"
| "process_rx_bytes cd (rx_byte # rest) = process_rx_bytes (process_rx cd (ucast rx_byte)) rest"

definition can2040_dma_irq_handler :: "can2040 \<Rightarrow> bool \<Rightarrow> bool \<Rightarrow> u8 list \<Rightarrow> can2040" where
  "can2040_dma_irq_handler cd forced idle rx_bytes =
     (let cd1 = (if forced \<and> parse_state cd \<noteq> MS_START \<and> idle
                 then data_state_go_idle cd else cd)
      in process_rx_bytes cd1 rx_bytes)"

section \<open>Transmit queuing\<close>

definition can2040_check_transmit :: "can2040 \<Rightarrow> bool" where
  "can2040_check_transmit cd =
     (let pending = tx_push_pos cd - tx_pull_pos cd
      in unat pending < length (tx_queue cd))"

text \<open>
  The loop of \<^verbatim>\<open>can2040_transmit\<close> that pushes the payload bytes \<open>d1[i]\<close> for \<open>i < len\<close>.
\<close>

function tx_push_data :: "bitstuffer_s \<Rightarrow> u8 list \<Rightarrow> u32 \<Rightarrow> u32 \<Rightarrow> bitstuffer_s" where
  "tx_push_data bs d i len =
     (if i < len then tx_push_data (bs_push bs (ucast (d ! unat i)) 8) d (i + 1) len else bs)"
  by pat_completeness auto
termination
proof (relation "measure (\<lambda>(bs, d, i, len). unat len - unat i)", goal_cases)
  case 1
  show ?case by simp
next
  case (2 bs d i len)
  have "unat len < 2 ^ 32"
    using unsigned_less[of len, where ?'a = nat] by simp
  with 2 have "unat (i + 1) = Suc (unat i)"
    by (simp add: word_less_nat_alt unat_word_ariths)
  with 2 show ?case
    by (simp add: word_less_nat_alt)
qed

declare tx_push_data.simps [simp del]

text \<open>
  \<^verbatim>\<open>can2040_transmit\<close> returns its return code with the controller. \<^verbatim>\<open>memcpy\<close> copies the
  first \<open>len\<close> bytes of the caller's payload over the zeroed payload of the slot.
\<close>

definition can2040_transmit :: "can2040 \<Rightarrow> can2040_msg \<Rightarrow> int \<times> can2040" where
  "can2040_transmit cd m =
     (let pull = tx_pull_pos cd; push = tx_push_pos cd; pending = push - pull
      in if unat pending \<ge> length (tx_queue cd) then (- 1, cd)
         else
           let qi = tx_qpos cd push; qt = tx_queue cd ! qi;
               rl = data_len m; len = (if rl > 8 then 8 else rl);
               qm = \<lparr>addr = addr m AND 0x7ff, data_len = len,
                     d1 = take (unat len) (d1 m) @ drop (unat len) (replicate 8 0)\<rparr>;
               bs0 = \<lparr>prev_stuffed = 1, bitpos = 0,
                      buf = replicate (length (stuffed_data qt)) 0, bs_crc = 0\<rparr>;
               hdr = push_bit 7 (addr qm) OR len;
               bs1 = bs_push bs0 hdr 19;
               bs2 = tx_push_data bs1 (d1 qm) 0 len;
               c = bs_crc bs2 AND 0x7fff;
               bs3 = bs_push bs2 c 15;
               bs4 = bs_pushraw bs3 1 1;
               fin = bs_finalize bs4; words = fst fin; bs5 = snd fin;
               qt' = \<lparr>msg = qm, crc = c, stuffed_words = words, stuffed_data = buf bs5\<rparr>;
               cd1 = cd\<lparr>tx_queue := (tx_queue cd)[qi := qt'], tx_push_pos := push + 1\<rparr>;
               cd2 = (if parse_state cd1 = MS_START then tx_do_schedule cd1 else cd1)
           in (0, cd2))"

section \<open>Setup\<close>

text \<open>
  \<^verbatim>\<open>can2040_setup\<close> zeroes the controller. The sizes of the two arrays come from the
  missing header; they are the parameters \<open>qsize\<close> and \<open>nwords\<close>.
\<close>

definition can2040_setup :: "nat \<Rightarrow> nat \<Rightarrow> can2040" where
  "can2040_setup qsize nwords =
     \<lparr>unstuf = \<lparr>stuffed_bits = 0, count_stuff = 0, unstuffed_bits = 0, count_unstuff = 0\<rparr>,
      raw_bit_count = 0, parse_state = MS_START, parse_crc = 0, parse_hdr = 0,
      parse_datapos = 0, parse_msg = zero_msg, in_transmit = 0, cancel_count = 0,
      tx_pull_pos = 0, tx_push_pos = 0,
      tx_queue = replicate qsize
        \<lparr>msg = zero_msg, crc = 0, stuffed_words = 0, stuffed_data = replicate nwords 0\<rparr>,
      rx_stall = False, events = []\<rparr>"

definition can2040_start :: "can2040 \<Rightarrow> can2040" where
  "can2040_start cd = data_state_go_discard (pio_sm_setup cd)"

section \<open>Reachable controller states\<close>

text \<open>
  The states of the controller that an execution can reach: \<^verbatim>\<open>can2040_setup\<close> zeroes it,
  \<^verbatim>\<open>can2040_start\<close> starts it, the foreground calls \<^verbatim>\<open>can2040_transmit\<close>, the hardware
  may raise the RX-stall flag, and the DMA interrupt handler either forces the idle state
  (only outside of \<open>MS_START\<close>) or processes a received byte.
\<close>

inductive reachable :: "can2040 \<Rightarrow> bool" where
  reach_setup: "reachable (can2040_setup qsize nwords)"
| reach_start: "reachable cd \<Longrightarrow> reachable (can2040_start cd)"
| reach_stall: "reachable cd \<Longrightarrow> reachable (cd\<lparr>rx_stall := b\<rparr>)"
| reach_transmit: "reachable cd \<Longrightarrow> reachable (snd (can2040_transmit cd m))"
| reach_idle: "reachable cd \<Longrightarrow> parse_state cd \<noteq> MS_START
                 \<Longrightarrow> reachable (data_state_go_idle cd)"
| reach_rx: "reachable cd \<Longrightarrow> reachable (process_rx cd (ucast (rx_byte :: u8)))"

section \<open>The receive loop returns with the raw window consumed\<close>

lemma process_rx_loop_exit:
  "\<exists>cd'. fst (unstuf_pull_bits (unstuf cd')) = 1
         \<and> process_rx_loop cd = cd'\<lparr>unstuf := snd (unstuf_pull_bits (unstuf cd'))\<rparr>"
proof (induction cd rule: process_rx_loop.induct)
  case (1 cd)
  define r where "r = unstuf_pull_bits (unstuf cd)"
  define cd1 where "cd1 = cd\<lparr>unstuf := snd r\<rparr>"
  have eq: "unstuf_pull_bits (unstuf cd) = (fst r, snd r)"
    by (simp add: r_def)
  note res = unstuf_pull_bits_result[OF eq]
  note unf = process_rx_loop.simps[of cd]
  consider "fst r = 0" | "fst r = 1" | "fst r = - 1" | "fst r = - 2"
    using res(6) by auto
  then show ?case
  proof cases
    case 1
    with "1.IH"(1)[OF r_def refl cd1_def] unf show ?thesis
      by (simp add: Let_def r_def cd1_def)
  next
    case 2
    with unf show ?thesis
      by (auto simp: Let_def r_def intro!: exI[of _ cd])
  next
    case 3
    with "1.IH"(2)[OF r_def refl cd1_def] unf show ?thesis
      by (simp add: Let_def r_def cd1_def)
  next
    case 4
    with "1.IH"(3)[OF r_def refl cd1_def] unf show ?thesis
      by (simp add: Let_def r_def cd1_def)
  qed
qed

lemma count_stuff_process_rx_loop: "count_stuff (unstuf (process_rx_loop cd)) = 0"
proof -
  obtain cd' where a: "fst (unstuf_pull_bits (unstuf cd')) = 1"
    and b: "process_rx_loop cd = cd'\<lparr>unstuf := snd (unstuf_pull_bits (unstuf cd'))\<rparr>"
    using process_rx_loop_exit by blast
  have "unstuf_pull_bits (unstuf cd') = (1, snd (unstuf_pull_bits (unstuf cd')))"
    using a by (metis prod.collapse)
  from unstuf_pull_bits_result(4)[OF this] b show ?thesis by simp
qed

lemma unstuf_can2040_transmit: "unstuf (snd (can2040_transmit cd m)) = unstuf cd"
  by (simp add: can2040_transmit_def Let_def)

lemma reachable_count_stuff: "reachable cd \<Longrightarrow> count_stuff (unstuf cd) = 0"
proof (induction rule: reachable.induct)
  case (reach_setup qsize nwords)
  show ?case by (simp add: can2040_setup_def)
next
  case (reach_start cd)
  then show ?case by (simp add: can2040_start_def pio_sm_setup_def)
next
  case (reach_stall cd b)
  then show ?case by simp
next
  case (reach_transmit cd m)
  then show ?case by (simp add: unstuf_can2040_transmit)
next
  case (reach_idle cd)
  then show ?case by simp
next
  case (reach_rx cd rx_byte)
  show ?case by (simp add: process_rx_def count_stuff_process_rx_loop)
qed

text \<open>
  Claim C9. \<^verbatim>\<open>process_rx\<close> returns only from a call of \<^verbatim>\<open>unstuf_pull_bits\<close> that returned 1;
  a call that returns 1 leaves \<open>count_stuff = 0\<close>; so \<open>count_stuff\<close> is 0 after every
  \<^verbatim>\<open>process_rx\<close> and in every reachable state, that is, whenever \<^verbatim>\<open>unstuf_add_bits\<close>
  overwrites it: no raw bit of the window is left unread.
\<close>

theorem process_rx_consumes_window:
  "(\<exists>cd'. fst (unstuf_pull_bits (unstuf cd')) = 1
          \<and> process_rx cd rx_byte = cd'\<lparr>unstuf := snd (unstuf_pull_bits (unstuf cd'))\<rparr>)
   \<and> (fst (unstuf_pull_bits bu) = 1 \<longrightarrow> count_stuff (snd (unstuf_pull_bits bu)) = 0)
   \<and> count_stuff (unstuf (process_rx cd rx_byte)) = 0
   \<and> (reachable cd \<longrightarrow> count_stuff (unstuf cd) = 0)"
proof -
  have "fst (unstuf_pull_bits bu) = 1 \<Longrightarrow> count_stuff (snd (unstuf_pull_bits bu)) = 0"
  proof -
    assume "fst (unstuf_pull_bits bu) = 1"
    then have "unstuf_pull_bits bu = (1, snd (unstuf_pull_bits bu))"
      by (metis prod.collapse)
    from unstuf_pull_bits_result(4)[OF this] show ?thesis by simp
  qed
  then show ?thesis
    using process_rx_loop_exit reachable_count_stuff
    by (simp add: process_rx_def count_stuff_process_rx_loop)
qed

theorem process_rx_consumes_window_witness:
  "reachable (can2040_start (can2040_setup 4 5))
   \<and> count_stuff (unstuf (can2040_start (can2040_setup 4 5))) = 0
   \<and> fst (unstuf_pull_bits
        \<lparr>stuffed_bits = 0x55, count_stuff = 0, unstuffed_bits = 0, count_unstuff = 8\<rparr>) = 1
   \<and> count_stuff (snd (unstuf_pull_bits
        \<lparr>stuffed_bits = 0x55, count_stuff = 0, unstuffed_bits = 0, count_unstuff = 8\<rparr>)) = 0
   \<and> count_stuff (unstuf (process_rx (can2040_start (can2040_setup 4 5)) 0x55)) = 0"
proof -
  have r: "reachable (can2040_start (can2040_setup 4 5))"
    by (intro reachable.intros)
  have p: "fst (unstuf_pull_bits
        \<lparr>stuffed_bits = 0x55, count_stuff = 0, unstuffed_bits = 0, count_unstuff = 8\<rparr>) = 1"
    by code_simp
  from r p
    process_rx_consumes_window[of "can2040_start (can2040_setup 4 5)" "0x55"
      "\<lparr>stuffed_bits = 0x55, count_stuff = 0, unstuffed_bits = 0, count_unstuff = 8\<rparr>"]
  show ?thesis by blast
qed

section \<open>Cancellations are counted without a transmission\<close>

fun is_tx_send :: "event \<Rightarrow> bool" where
  "is_tx_send (Pio_tx_send ws) = True"
| "is_tx_send e = False"

text \<open>
  A bus that is stuck dominant for five bytes and then idle: every dominant bit after the
  first five is a stuff error, and the recessive bits bring the parser to \<open>MS_START\<close>.
\<close>

definition bus_errors :: can2040 where
  "bus_errors =
     process_rx_bytes (can2040_start (can2040_setup 4 5)) [0, 0, 0, 0, 0, 0xff, 0xff]"

definition frame_123 :: can2040_msg where
  "frame_123 = \<lparr>addr = 0x123, data_len = 1, d1 = [0xA5, 0, 0, 0, 0, 0, 0, 0]\<rparr>"

lemma data_state_go_discard_effect:
  "cancel_count (data_state_go_discard cd) = cancel_count cd + 1
   \<and> in_transmit (data_state_go_discard cd) = 0
   \<and> events (data_state_go_discard cd) = Pio_idle_irq True # Pio_tx_cancel # events cd"
  by (simp add: data_state_go_discard_def tx_cancel_def pio_sync_enable_idle_irq_def
        pio_tx_cancel_def emit_def set_count_def)

lemma bus_errors_drop_frame:
  "(let cd1 = bus_errors; r = can2040_transmit cd1 frame_123
    in in_transmit cd1 = 0 \<and> filter is_tx_send (events cd1) = [] \<and> cancel_count cd1 > 32
       \<and> tx_push_pos cd1 = tx_pull_pos cd1 \<and> fst r = 0
       \<and> events (snd r) = Pio_tx_send [] # Rx_cb ID_TX_FAIL frame_123 # events cd1)"
  unfolding bus_errors_def frame_123_def
  by code_simp

text \<open>
  Claim C10. Every path into \<^verbatim>\<open>data_state_go_discard\<close> (stuff error, DISCARD re-entry, EOF
  fallback, CRC mismatch, unsupported header, malformed ACK) calls \<^verbatim>\<open>tx_cancel\<close>: it
  increments \<open>cancel_count\<close> and clears \<open>in_transmit\<close> whatever \<open>in_transmit\<close> was. So
  bus errors alone push \<open>cancel_count\<close> over 32: after \<open>bus_errors\<close>, where nothing was ever
  sent, the first frame queued is reported as \<open>ID_TX_FAIL\<close> at once, and none of its words
  reaches the TX FIFO.
\<close>

theorem go_discard_counts_cancel_without_transmission:
  "cancel_count (data_state_go_discard cd) = cancel_count cd + 1
   \<and> in_transmit (data_state_go_discard cd) = 0
   \<and> events (data_state_go_discard cd) = Pio_idle_irq True # Pio_tx_cancel # events cd
   \<and> data_state_go_error cd = data_state_go_discard cd
   \<and> data_state_update_eof cd data = data_state_go_discard cd
   \<and> data_state_update_discard cd data = data_state_go_discard cd
   \<and> (parse_crc cd \<noteq> data
        \<longrightarrow> data_state_update_crc cd data = data_state_go_discard (pio_ack_cancel cd))
   \<and> (data AND (push_bit 18 1 OR push_bit 4 7) \<noteq> 0
        \<longrightarrow> data_state_update_start cd data = data_state_go_discard cd)
   \<and> (data \<noteq> 2 \<and> \<not> rx_stall cd
        \<longrightarrow> data_state_update_ack cd data = data_state_go_discard (pio_ack_cancel cd))
   \<and> (let cd1 = bus_errors; r = can2040_transmit cd1 frame_123
      in in_transmit cd1 = 0 \<and> filter is_tx_send (events cd1) = [] \<and> cancel_count cd1 > 32
         \<and> tx_push_pos cd1 = tx_pull_pos cd1 \<and> fst r = 0
         \<and> events (snd r) = Pio_tx_send [] # Rx_cb ID_TX_FAIL frame_123 # events cd1)"
proof -
  have "data_state_update_ack cd data = data_state_go_discard (pio_ack_cancel cd)"
    if "data \<noteq> 2" "\<not> rx_stall cd"
    using that
    by (simp add: data_state_update_ack_def Let_def pio_rx_check_stall_def
          data_state_go_discard_def pio_sync_enable_idle_irq_def tx_cancel_def
          pio_tx_cancel_def set_count_def pio_ack_cancel_def emit_def)
  then show ?thesis
    using data_state_go_discard_effect[of cd] bus_errors_drop_frame
    by (simp add: data_state_go_error_def data_state_update_eof_def
          data_state_update_discard_def data_state_update_crc_def data_state_update_start_def)
qed

theorem go_discard_counts_cancel_without_transmission_witness:
  "parse_crc (can2040_setup 4 5) \<noteq> 0x10
   \<and> (0x10 :: u32) AND (push_bit 18 1 OR push_bit 4 7) \<noteq> 0
   \<and> (0x10 :: u32) \<noteq> 2 \<and> \<not> rx_stall (can2040_setup 4 5)
   \<and> in_transmit (can2040_setup 4 5) = 0
   \<and> cancel_count (data_state_update_crc (can2040_setup 4 5) 0x10) = 1
   \<and> cancel_count (data_state_update_start (can2040_setup 4 5) 0x10) = 1
   \<and> cancel_count (data_state_update_ack (can2040_setup 4 5) 0x10) = 1"
proof -
  have a: "parse_crc (can2040_setup 4 5) \<noteq> 0x10"
    and b: "(0x10 :: u32) AND (push_bit 18 1 OR push_bit 4 7) \<noteq> 0"
    and c: "(0x10 :: u32) \<noteq> 2" and d: "\<not> rx_stall (can2040_setup 4 5)"
    and e: "in_transmit (can2040_setup 4 5) = 0"
    and f: "cancel_count (can2040_setup 4 5) = 0"
    and g: "cancel_count (pio_ack_cancel (can2040_setup 4 5)) = 0"
    by (simp_all add: can2040_setup_def pio_ack_cancel_def emit_def)
  from a b c d e f g
    go_discard_counts_cancel_without_transmission[of "can2040_setup 4 5" "0x10"]
    data_state_go_discard_effect[of "pio_ack_cancel (can2040_setup 4 5)"]
  show ?thesis by simp
qed

section \<open>The scheduler after a dropped frame\<close>

lemma reachable_process_rx_bytes:
  "reachable cd \<Longrightarrow> reachable (process_rx_bytes cd bs)"
  by (induction bs arbitrary: cd) (auto intro: reach_rx)

lemma reachable_bus_errors: "reachable bus_errors"
  unfolding bus_errors_def
  by (intro reachable_process_rx_bytes reach_start reach_setup)

text \<open>
  \<^verbatim>\<open>tx_do_schedule\<close> starts nothing while a transmission is in progress or the queue is
  empty.
\<close>

lemma tx_do_schedule_idle:
  "in_transmit cd \<noteq> 0 \<or> tx_push_pos cd = tx_pull_pos cd \<Longrightarrow> tx_do_schedule cd = cd"
  by (auto simp: tx_do_schedule_def)

text \<open>
  A frame queued while the parser discards a bus stuck dominant: the parser is not in
  \<open>MS_START\<close>, so \<^verbatim>\<open>can2040_transmit\<close> does not call the scheduler, and the frame is the
  only one pending.
\<close>

definition queued_after_errors :: can2040 where
  "queued_after_errors =
     snd (can2040_transmit
            (process_rx_bytes (can2040_start (can2040_setup 4 5)) [0, 0, 0, 0, 0]) frame_123)"

text \<open>
  Claim C7. The claim says that whenever \<^verbatim>\<open>tx_do_schedule\<close> calls \<^verbatim>\<open>pio_tx_send\<close>, also after
  it dropped the head slot, the slot it sends is pending. The code does not check the queue
  again after the drop: in the reachable state \<open>queued_after_errors\<close>, with one frame pending
  and \<open>cancel_count > 32\<close>, it reports \<open>ID_TX_FAIL\<close> for the frame, advances \<open>tx_pull_pos\<close> to
  \<open>tx_push_pos\<close> and then calls \<^verbatim>\<open>pio_tx_send\<close> on the slot behind the queue (which is still
  zeroed, so no word is sent) and sets \<open>in_transmit\<close>.
\<close>

theorem tx_do_schedule_sends_empty_slot:
  "reachable queued_after_errors
   \<and> (let cd = queued_after_errors; cd' = tx_do_schedule cd
      in in_transmit cd = 0 \<and> tx_push_pos cd - tx_pull_pos cd = 1 \<and> cancel_count cd > 32
         \<and> events cd' = Pio_tx_send [] # Rx_cb ID_TX_FAIL frame_123 # events cd
         \<and> tx_pull_pos cd' = tx_push_pos cd' \<and> in_transmit cd' = 1)"
proof -
  have "reachable queued_after_errors"
    unfolding queued_after_errors_def
    by (intro reach_transmit reachable_process_rx_bytes reach_start reach_setup)
  moreover have "(let cd = queued_after_errors; cd' = tx_do_schedule cd
      in in_transmit cd = 0 \<and> tx_push_pos cd - tx_pull_pos cd = 1 \<and> cancel_count cd > 32
         \<and> events cd' = Pio_tx_send [] # Rx_cb ID_TX_FAIL frame_123 # events cd
         \<and> tx_pull_pos cd' = tx_push_pos cd' \<and> in_transmit cd' = 1)"
    unfolding queued_after_errors_def frame_123_def
    by code_simp
  ultimately show ?thesis by simp
qed

theorem tx_do_schedule_sends_empty_slot_witness:
  "tx_pull_pos (tx_do_schedule queued_after_errors)
     = tx_push_pos (tx_do_schedule queued_after_errors)
   \<and> in_transmit (tx_do_schedule queued_after_errors) = 1"
  using tx_do_schedule_sends_empty_slot by (simp add: Let_def)

section \<open>The pending count of the transmit queue\<close>

text \<open>
  After \<open>bus_errors\<close> the application queues a frame. The scheduler drops it and marks a
  transmission of the empty queue as in progress. Then another node sends the frame with
  identifier 0 and no data, which is acknowledged; its CRC is 0. The bytes are that frame
  on the wire: start of frame, 18 header bits and 15 CRC bits, all dominant, with a stuff
  bit after every five of them, the CRC delimiter, the ACK slot, the ACK delimiter and the
  end of frame.
\<close>

definition queue_underflow :: can2040 where
  "queue_underflow =
     process_rx_bytes (snd (can2040_transmit bus_errors frame_123))
       [0x04, 0x10, 0x41, 0x04, 0x10, 0xbf]"

lemma queue_underflow_counters:
  "(let cd = queue_underflow
    in tx_push_pos cd = 1 \<and> tx_pull_pos cd = 2 \<and> length (tx_queue cd) = 4)"
  unfolding queue_underflow_def bus_errors_def frame_123_def
  by code_simp

text \<open>
  Claim C6. The claim says that \<open>pending = tx_push_pos - tx_pull_pos\<close> stays within the
  capacity of the queue in every reachable state. In the reachable state \<open>queue_underflow\<close>
  the received frame equals the zeroed slot behind the queue, \<^verbatim>\<open>tx_finalize\<close> takes it for
  the transmission in progress and advances \<open>tx_pull_pos\<close> beyond \<open>tx_push_pos\<close>: \<open>pending\<close>
  is \<open>2^32 - 1\<close> with a capacity of 4, and every later \<^verbatim>\<open>can2040_transmit\<close> is refused.
\<close>

theorem tx_queue_pending_underflow:
  "reachable queue_underflow
   \<and> tx_push_pos queue_underflow - tx_pull_pos queue_underflow = 0xffffffff
   \<and> length (tx_queue queue_underflow) = 4
   \<and> \<not> can2040_check_transmit queue_underflow
   \<and> can2040_transmit queue_underflow frame_123 = (- 1, queue_underflow)"
proof -
  have "reachable queue_underflow"
    unfolding queue_underflow_def
    by (intro reachable_process_rx_bytes reach_transmit reachable_bus_errors)
  moreover have "unat (- 1 :: u32) = 4294967295"
    by (simp add: unsigned_minus_1_eq_mask mask_eq_exp_minus_1)
  ultimately show ?thesis
    using queue_underflow_counters
    by (simp add: Let_def can2040_check_transmit_def can2040_transmit_def)
qed

theorem tx_queue_pending_underflow_witness:
  "tx_push_pos queue_underflow - tx_pull_pos queue_underflow = 0xffffffff
   \<and> length (tx_queue queue_underflow) = 4"
  using tx_queue_pending_underflow by simp

section \<open>Bit lists and the stuffing rule\<close>

text \<open>
  The specification describes the encoder on bit strings: a field is sent most significant bit
  first, and after five equal bits a bit of the opposite polarity is inserted. The definitions
  of this section state that rule on lists of bits, independently of the word operations of
  \<^verbatim>\<open>bitstuff\<close>; the lemmas relate the two.

  \<open>bits_msb w n\<close> is the field made of the low \<open>n\<close> bits of \<open>w\<close>, in the order of transmission.
  \<open>hist w c\<close> is the five bits of \<open>w\<close> from position \<open>c\<close> upwards, the most recent first; it is the
  context that decides whether the bit below position \<open>c\<close> completes a run. \<open>run5 h\<close> holds when
  the five bits of \<open>h\<close> are equal.
\<close>

definition hist :: "u32 \<Rightarrow> nat \<Rightarrow> bool list" where
  "hist w c = map (bit w) [c..<c + 5]"

definition bits_msb :: "u32 \<Rightarrow> nat \<Rightarrow> bool list" where
  "bits_msb w n = map (bit w) (rev [0..<n])"

definition run5 :: "bool list \<Rightarrow> bool" where
  "run5 h = (h = replicate 5 (hd h))"

lemma hist_eq:
  "hist w c = [bit w c, bit w (Suc c), bit w (Suc (Suc c)), bit w (Suc (Suc (Suc c))),
               bit w (Suc (Suc (Suc (Suc c))))]"
proof -
  have "[c..<c + 5] = [c, Suc c, Suc (Suc c), Suc (Suc (Suc c)), Suc (Suc (Suc (Suc c)))]"
    by (simp add: upt_rec)
  then show ?thesis by (simp add: hist_def)
qed

lemma run5_hist:
  "run5 (hist w c) \<longleftrightarrow> bit w c = bit w (Suc c) \<and> bit w (Suc c) = bit w (Suc (Suc c))
     \<and> bit w (Suc (Suc c)) = bit w (Suc (Suc (Suc c)))
     \<and> bit w (Suc (Suc (Suc c))) = bit w (Suc (Suc (Suc (Suc c))))"
  by (auto simp: run5_def hist_eq eval_nat_numeral)

lemma and_mask4_eq_0: "(x :: u32) AND 0xf = 0 \<longleftrightarrow> \<not> bit x 0 \<and> \<not> bit x 1 \<and> \<not> bit x 2 \<and> \<not> bit x 3"
proof -
  have m: "(0xf :: u32) = mask 4" by (simp add: mask_eq_exp_minus_1)
  have "x AND mask 4 = 0 \<longleftrightarrow> (\<forall>n<4. \<not> bit x n)"
  proof
    assume z: "x AND mask 4 = 0"
    show "\<forall>n<4. \<not> bit x n"
    proof (intro allI impI notI)
      fix n :: nat assume "n < 4" "bit x n"
      then have "bit (x AND mask 4) n"
        by (simp add: bit_and_iff bit_mask_iff)
      with z show False by simp
    qed
  next
    assume "\<forall>n<4. \<not> bit x n"
    then show "x AND mask 4 = 0"
      by (intro bit_eqI) (auto simp: bit_and_iff bit_mask_iff)
  qed
  also have "\<dots> \<longleftrightarrow> \<not> bit x 0 \<and> \<not> bit x 1 \<and> \<not> bit x 2 \<and> \<not> bit x 3"
    by (auto simp: numeral_eq_Suc less_Suc_eq)
  finally show ?thesis by (simp add: m)
qed

lemma and_mask5_eq_0: "(x :: u32) AND 0x1f = 0 \<longleftrightarrow> \<not> bit x 0 \<and> \<not> bit x 1 \<and> \<not> bit x 2 \<and> \<not> bit x 3 \<and> \<not> bit x 4"
proof -
  have m: "(0x1f :: u32) = mask 5" by (simp add: mask_eq_exp_minus_1)
  have "x AND mask 5 = 0 \<longleftrightarrow> (\<forall>n<5. \<not> bit x n)"
  proof
    assume z: "x AND mask 5 = 0"
    show "\<forall>n<5. \<not> bit x n"
    proof (intro allI impI notI)
      fix n :: nat assume "n < 5" "bit x n"
      then have "bit (x AND mask 5) n"
        by (simp add: bit_and_iff bit_mask_iff)
      with z show False by simp
    qed
  next
    assume "\<forall>n<5. \<not> bit x n"
    then show "x AND mask 5 = 0"
      by (intro bit_eqI) (auto simp: bit_and_iff bit_mask_iff)
  qed
  also have "\<dots> \<longleftrightarrow> \<not> bit x 0 \<and> \<not> bit x 1 \<and> \<not> bit x 2 \<and> \<not> bit x 3 \<and> \<not> bit x 4"
    by (auto simp: numeral_eq_Suc less_Suc_eq)
  finally show ?thesis by (simp add: m)
qed

lemma bit_drop_edges:
  "bit (drop_bit c (w XOR drop_bit 1 w)) k \<longleftrightarrow> bit w (c + k) \<noteq> bit w (c + k + 1)"
  for w :: u32
  by (simp add: bit_drop_bit_eq bit_xor_iff add.commute add.left_commute)

lemma edges4: "drop_bit c (w XOR drop_bit 1 w) AND 0xf = 0 \<longleftrightarrow> run5 (hist w c)" for w :: u32
  unfolding and_mask4_eq_0 bit_drop_edges run5_hist
  by (simp add: eval_nat_numeral)

lemma edges5:
  "drop_bit c (w XOR drop_bit 1 w) AND 0x1f = 0
     \<longleftrightarrow> run5 (hist w (Suc c)) \<and> bit w c = bit w (Suc c)" for w :: u32
  unfolding and_mask5_eq_0 bit_drop_edges run5_hist
  by (auto simp: eval_nat_numeral)

text \<open>
  Specification of bit stuffing: \<open>stuff_bits h xs\<close> is the stuffed form of the bits \<open>xs\<close> sent after
  the bits \<open>h\<close> (most recent first). A bit that is the fifth of five equal bits is followed by
  its complement, and the inserted bit counts for the next run.
\<close>

fun stuff_bits :: "bool list \<Rightarrow> bool list \<Rightarrow> bool list" where
  "stuff_bits h [] = []"
| "stuff_bits h (x # xs) =
     (if run5 (x # take 4 h) then x # (\<not> x) # stuff_bits ((\<not> x) # x # take 3 h) xs
      else x # stuff_bits (x # take 4 h) xs)"

definition stuff_ins :: "u32 \<Rightarrow> nat \<Rightarrow> u32" where
  "stuff_ins b i =
     (let mask = push_bit (i + 1) 1 - 1;
          low = b AND mask;
          high = push_bit 1 (b AND NOT (drop_bit 1 mask))
      in high XOR low XOR push_bit i 1)"

lemma bit_push_bit_u32:
  "bit (push_bit k x) n \<longleftrightarrow> k \<le> n \<and> n < 32 \<and> bit x (n - k)" for x :: u32
  by (auto simp: bit_push_bit_iff dest: bit_imp_le_length)

lemma bit_mask_u32: "bit (mask k :: u32) n \<longleftrightarrow> n < 32 \<and> n < k"
  by (auto simp: bit_mask_iff)

lemma bit_not_u32: "bit (NOT x) n \<longleftrightarrow> n < 32 \<and> \<not> bit x n" for x :: u32
  by (auto simp: bit_not_iff)

lemma bit_one_u32: "bit (1 :: u32) n \<longleftrightarrow> n = 0"
  by (simp add: bit_1_iff)

lemma bit_stuff_ins:
  assumes "i < 32"
  shows "bit (stuff_ins b i) n \<longleftrightarrow>
     n < 32 \<and> (if n < i then bit b n else if n = i then \<not> bit b i else bit b (n - 1))"
proof -
  have m: "push_bit (i + 1) 1 - 1 = (mask (i + 1) :: u32)"
    by (simp add: mask_eq_exp_minus_1)
  have d: "drop_bit 1 (mask (i + 1) :: u32) = mask i"
    using assms by (intro bit_eqI) (auto simp: bit_drop_bit_eq bit_mask_iff)
  define one :: nat where "one = 1"
  have eq: "stuff_ins b i = push_bit one (b AND NOT (mask i)) XOR (b AND mask (i + 1)) XOR push_bit i 1"
    unfolding stuff_ins_def Let_def m d one_def ..
  have "n < 32" if "bit b n" for n
    using that bit_imp_le_length[of b n] by simp
  then show ?thesis
    unfolding eq bit_xor_iff bit_and_iff bit_push_bit_u32 bit_not_u32 bit_mask_u32 bit_one_u32
    using assms by (cases "n = 0") (auto simp: one_def)
qed

lemma bitstuff_loop_stuff:
  assumes "0 \<le> i" and "run5 (hist b (nat i))"
  shows "bitstuff_loop b (b XOR drop_bit 1 b) c i
       = bitstuff_loop (stuff_ins b (nat i))
           (stuff_ins b (nat i) XOR drop_bit 1 (stuff_ins b (nat i))) (c + 1) (i - 4)"
proof -
  have t: "(drop_bit (nat i) (b XOR drop_bit 1 b) AND 0xf = 0) = True"
    using assms(2) by (simp only: edges4)
  have ni: "(i < 0) = False" using assms(1) by simp
  have n: "nat (i + 1) = nat i + 1" using assms(1) by simp
  have e: "i - 3 - 1 = i - 4" by simp
  show ?thesis
    by (subst bitstuff_loop.simps) (simp only: t ni n e if_True if_False Let_def stuff_ins_def)
qed

lemma bitstuff_loop_skip:
  assumes "i < 0 \<or> \<not> run5 (hist b (nat i))"
  shows "bitstuff_loop b (b XOR drop_bit 1 b) c i = bitstuff_loop b (b XOR drop_bit 1 b) c (i - 1)"
proof (cases "i < 0")
  case True
  then have "(i - 1 < 0) = True" by simp
  with True show ?thesis
    by (subst bitstuff_loop.simps, subst (2) bitstuff_loop.simps) (simp only: if_True)
next
  case False
  with assms have "(drop_bit (nat i) (b XOR drop_bit 1 b) AND 0xf = 0) = False"
    by (simp only: edges4) simp
  with False show ?thesis
    by (subst bitstuff_loop.simps) (simp only: if_False)
qed

lemma bits_msb_Suc: "bits_msb w (Suc n) = bit w n # bits_msb w n"
  by (simp add: bits_msb_def)

lemma bits_msb_0 [simp]: "bits_msb w 0 = []"
  by (simp add: bits_msb_def)

lemma length_bits_msb [simp]: "length (bits_msb w n) = n"
  by (simp add: bits_msb_def)

lemma length_hist [simp]: "length (hist w c) = 5"
  by (simp add: hist_def)

lemma hist_step: "hist w c = bit w c # take 4 (hist w (Suc c))"
  by (simp add: hist_eq)

lemma bits_msb_cong: "(\<And>n. n < k \<Longrightarrow> bit v n = bit w n) \<Longrightarrow> bits_msb v k = bits_msb w k"
  by (simp add: bits_msb_def)

lemma not_run5_hist:
  assumes "bit w (c + d) \<noteq> bit w (Suc (c + d))" "d < 4"
  shows "\<not> run5 (hist w c)"
proof -
  from assms(2) consider "d = 0" | "d = 1" | "d = 2" | "d = 3" by linarith
  then show ?thesis
    using assms(1) by cases (auto simp: run5_hist eval_nat_numeral)
qed

lemma bitstuff_loop_skip3:
  assumes "bit b1 k \<noteq> bit b1 (Suc k)"
  shows "bitstuff_loop b1 (b1 XOR drop_bit 1 b1) c (int k - 4)
           = bitstuff_loop b1 (b1 XOR drop_bit 1 b1) c (int k - 1)"
proof -
  have s: "bitstuff_loop b1 (b1 XOR drop_bit 1 b1) c (int k - int d)
             = bitstuff_loop b1 (b1 XOR drop_bit 1 b1) c (int k - int d - 1)"
    if "1 \<le> d" "d \<le> 3" for d
  proof (rule bitstuff_loop_skip)
    show "int k - int d < 0 \<or> \<not> run5 (hist b1 (nat (int k - int d)))"
    proof (cases "int k - int d < 0")
      case True
      then show ?thesis by simp
    next
      case False
      then have kd: "nat (int k - int d) = k - d" "d \<le> k" by auto
      have "\<not> run5 (hist b1 (k - d))"
      proof (rule not_run5_hist[where d = d])
        show "bit b1 (k - d + d) \<noteq> bit b1 (Suc (k - d + d))"
          using assms kd by simp
        show "d < 4" using that by simp
      qed
      then show ?thesis by (simp add: kd)
    qed
  qed
  have "bitstuff_loop b1 (b1 XOR drop_bit 1 b1) c (int k - 1)
          = bitstuff_loop b1 (b1 XOR drop_bit 1 b1) c (int k - 2)"
    using s[of 1] by simp
  also have "\<dots> = bitstuff_loop b1 (b1 XOR drop_bit 1 b1) c (int k - 3)"
    using s[of 2] by simp
  also have "\<dots> = bitstuff_loop b1 (b1 XOR drop_bit 1 b1) c (int k - 4)"
    using s[of 3] by simp
  finally show ?thesis by simp
qed

lemma bitstuff_loop_refines:
  assumes "k + 4 \<le> 32"
  shows "\<exists>b'. bitstuff_loop b (b XOR drop_bit 1 b) c (int k - 1)
                = (b', c + of_nat (length (stuff_bits (hist b k) (bits_msb b k)) - k))
      \<and> k \<le> length (stuff_bits (hist b k) (bits_msb b k))
      \<and> (length (stuff_bits (hist b k) (bits_msb b k)) \<le> 32 \<longrightarrow>
           bits_msb b' (length (stuff_bits (hist b k) (bits_msb b k)))
             = stuff_bits (hist b k) (bits_msb b k))
      \<and> (\<forall>j. length (stuff_bits (hist b k) (bits_msb b k)) + j < 32 \<longrightarrow>
             bit b' (length (stuff_bits (hist b k) (bits_msb b k)) + j) = bit b (k + j))"
  using assms
proof (induction k arbitrary: b c)
  case 0
  have "bitstuff_loop b (b XOR drop_bit 1 b) c (- 1) = (b, c)"
    by (subst bitstuff_loop.simps) simp
  then show ?case by simp
next
  case (Suc k)
  define x where "x = bit b k"
  have hk: "hist b k = x # take 4 (hist b (Suc k))"
    unfolding x_def by (rule hist_step)
  have bm: "bits_msb b (Suc k) = x # bits_msb b k"
    unfolding x_def by (rule bits_msb_Suc)
  have ik: "int (Suc k) - 1 = int k" by simp
  show ?case
  proof (cases "run5 (hist b k)")
    case False
    define out where "out = stuff_bits (hist b k) (bits_msb b k)"
    have out_eq: "stuff_bits (hist b (Suc k)) (bits_msb b (Suc k)) = x # out"
      using False unfolding bm out_def hk by simp
    from Suc.prems have "k + 4 \<le> 32" by simp
    from Suc.IH[OF this, of b c] obtain b' where
      l: "bitstuff_loop b (b XOR drop_bit 1 b) c (int k - 1) = (b', c + of_nat (length out - k))"
      and kl: "k \<le> length out"
      and bits: "length out \<le> 32 \<longrightarrow> bits_msb b' (length out) = out"
      and up: "\<forall>j. length out + j < 32 \<longrightarrow> bit b' (length out + j) = bit b (k + j)"
      unfolding out_def by blast
    have "bitstuff_loop b (b XOR drop_bit 1 b) c (int (Suc k) - 1)
            = bitstuff_loop b (b XOR drop_bit 1 b) c (int k - 1)"
      unfolding ik using False by (intro bitstuff_loop_skip) simp
    with l have l': "bitstuff_loop b (b XOR drop_bit 1 b) c (int (Suc k) - 1)
            = (b', c + of_nat (length (x # out) - Suc k))"
      by simp
    have bits': "bits_msb b' (length (x # out)) = x # out" if "length (x # out) \<le> 32"
    proof -
      from that have "length out + 0 < 32" by simp
      with up have "bit b' (length out) = bit b k" by (metis add.right_neutral)
      with bits that show ?thesis
        by (simp add: bits_msb_Suc x_def)
    qed
    have up': "bit b' (length (x # out) + j) = bit b (Suc k + j)" if "length (x # out) + j < 32" for j
      using up[rule_format, of "Suc j"] that by simp
    show ?thesis
      unfolding out_eq using l' kl bits' up' by auto
  next
    case True
    define b1 where "b1 = stuff_ins b k"
    from Suc.prems have k31: "k + 4 < 32" by simp
    then have k32: "k < 32" by simp
    have b1_lo: "bit b1 n = bit b n" if "n < k" for n
      using that k32 unfolding b1_def by (simp add: bit_stuff_ins)
    have b1_k: "bit b1 k = (\<not> x)"
      using k32 unfolding b1_def x_def by (simp add: bit_stuff_ins)
    have b1_hi: "bit b1 (Suc n) = bit b n" if "k \<le> n" "Suc n < 32" for n
      using that k32 unfolding b1_def by (simp add: bit_stuff_ins)
    have h1: "hist b1 k = (\<not> x) # x # take 3 (hist b (Suc k))"
      using b1_k b1_hi[of k] b1_hi[of "Suc k"] b1_hi[of "Suc (Suc k)"] b1_hi[of "Suc (Suc (Suc k))"] k31
      by (simp add: hist_eq x_def)
    have m1: "bits_msb b1 k = bits_msb b k"
      by (rule bits_msb_cong) (rule b1_lo)
    define out where "out = stuff_bits (hist b1 k) (bits_msb b1 k)"
    have out_eq: "stuff_bits (hist b (Suc k)) (bits_msb b (Suc k)) = x # (\<not> x) # out"
      using True unfolding bm out_def hk h1 m1 by simp
    from Suc.prems have "k + 4 \<le> 32" by simp
    from Suc.IH[OF this, of b1 "c + 1"] obtain b' where
      l: "bitstuff_loop b1 (b1 XOR drop_bit 1 b1) (c + 1) (int k - 1)
            = (b', c + 1 + of_nat (length out - k))"
      and kl: "k \<le> length out"
      and bits: "length out \<le> 32 \<longrightarrow> bits_msb b' (length out) = out"
      and up: "\<forall>j. length out + j < 32 \<longrightarrow> bit b' (length out + j) = bit b1 (k + j)"
      unfolding out_def by blast
    have ne: "bit b1 k \<noteq> bit b1 (Suc k)"
      using b1_k b1_hi[of k] k31 by (simp add: x_def)
    have "bitstuff_loop b (b XOR drop_bit 1 b) c (int (Suc k) - 1)
            = bitstuff_loop b1 (b1 XOR drop_bit 1 b1) (c + 1) (int k - 4)"
      unfolding ik b1_def using True bitstuff_loop_stuff[of "int k" b c] by simp
    also have "\<dots> = bitstuff_loop b1 (b1 XOR drop_bit 1 b1) (c + 1) (int k - 1)"
      using ne by (rule bitstuff_loop_skip3)
    finally have l': "bitstuff_loop b (b XOR drop_bit 1 b) c (int (Suc k) - 1)
            = (b', c + of_nat (length (x # (\<not> x) # out) - Suc k))"
      using l kl by (simp add: Suc_diff_le)
    have bits': "bits_msb b' (length (x # (\<not> x) # out)) = x # (\<not> x) # out"
      if "length (x # (\<not> x) # out) \<le> 32"
    proof -
      from that have a: "length out + 0 < 32" and b: "length out + 1 < 32" by simp_all
      from up a have "bit b' (length out) = bit b1 k" by (metis add.right_neutral)
      moreover from up b have "bit b' (length out + 1) = bit b1 (k + 1)" by blast
      moreover have "bit b1 (k + 1) = x"
        using b1_hi[of k] k31 by (simp add: x_def)
      ultimately show ?thesis
        using bits that b1_k by (simp add: bits_msb_Suc)
    qed
    have up': "bit b' (length (x # (\<not> x) # out) + j) = bit b (Suc k + j)"
      if "length (x # (\<not> x) # out) + j < 32" for j
    proof -
      from that have "length out + (j + 2) < 32" by simp
      with up have "bit b' (length out + (j + 2)) = bit b1 (k + (j + 2))" by blast
      also have "\<dots> = bit b (Suc k + j)"
        using b1_hi[of "Suc k + j"] that kl by simp
      finally show ?thesis by (simp add: add.commute add.left_commute)
    qed
    show ?thesis
      unfolding out_eq using l' kl bits' up' by auto
  qed
qed

text \<open>
  \<open>stuff_hist h xs\<close> is the context after \<open>xs\<close> has been sent: the last five bits on the wire.
\<close>

fun stuff_hist :: "bool list \<Rightarrow> bool list \<Rightarrow> bool list" where
  "stuff_hist h [] = h"
| "stuff_hist h (x # xs) =
     (if run5 (x # take 4 h) then stuff_hist ((\<not> x) # x # take 3 h) xs
      else stuff_hist (x # take 4 h) xs)"

lemma length_stuff_hist: "length h = 5 \<Longrightarrow> length (stuff_hist h xs) = 5"
  by (induction xs arbitrary: h) auto

lemma stuff_bits_append:
  "stuff_bits h (xs @ ys) = stuff_bits h xs @ stuff_bits (stuff_hist h xs) ys"
  by (induction xs arbitrary: h) auto

lemma stuff_hist_append:
  "stuff_hist h (xs @ ys) = stuff_hist (stuff_hist h xs) ys"
  by (induction xs arbitrary: h) auto

lemma take_prefix: "n \<le> length xs \<Longrightarrow> take n (xs @ ys) = take n xs"
  by simp

lemma stuff_hist_eq:
  "length h = 5 \<Longrightarrow> stuff_hist h xs = take 5 (rev (stuff_bits h xs) @ h)"
proof (induction xs arbitrary: h)
  case Nil
  then show ?case by simp
next
  case (Cons x xs)
  obtain a b c d e where h: "h = [a, b, c, d, e]"
    using Cons.prems by (auto simp: length_Suc_conv eval_nat_numeral)
  show ?case
  proof (cases "run5 (x # take 4 h)")
    case True
    have "stuff_hist h (x # xs) = take 5 (rev (stuff_bits ((\<not> x) # x # take 3 h) xs) @ (\<not> x) # x # take 3 h)"
      using True Cons.IH[of "(\<not> x) # x # take 3 h"] Cons.prems by simp
    also have "\<dots> = take 5 (rev (stuff_bits h (x # xs)) @ h)"
      using True take_prefix[of _ "[\<not> x, x, a, b, c]" "[d, e]"] by (simp add: h)
    finally show ?thesis .
  next
    case False
    have "stuff_hist h (x # xs) = take 5 (rev (stuff_bits (x # take 4 h) xs) @ x # take 4 h)"
      using False Cons.IH[of "x # take 4 h"] Cons.prems by simp
    also have "\<dots> = take 5 (rev (stuff_bits h (x # xs)) @ h)"
      using False take_prefix[of _ "[x, a, b, c, d]" "[e]"] by (simp add: h)
    finally show ?thesis .
  qed
qed

text \<open>
  Stuffing inserts at most one bit for every four bits of the field, and its output, read
  together with the context, never holds six equal bits in a row.
\<close>

fun lead_run :: "bool list \<Rightarrow> nat" where
  "lead_run [] = 0"
| "lead_run [x] = 1"
| "lead_run (x # y # t) = (if x = y then Suc (lead_run (y # t)) else 1)"

lemma stuff_bits_potential:
  "length h = 5 \<Longrightarrow>
     4 * length (stuff_bits h xs) + min 4 (lead_run (stuff_hist h xs))
       \<le> 5 * length xs + min 4 (lead_run h)"
proof (induction xs arbitrary: h)
  case Nil
  then show ?case by simp
next
  case (Cons x xs)
  obtain a b c d e where h: "h = [a, b, c, d, e]"
    using Cons.prems by (auto simp: length_Suc_conv eval_nat_numeral)
  show ?case
  proof (cases "run5 (x # take 4 h)")
    case True
    then have "min 4 (lead_run h) = 4" and "min 4 (lead_run ((\<not> x) # x # take 3 h)) = 1"
      by (auto simp: h run5_def eval_nat_numeral)
    with True Cons.IH[of "(\<not> x) # x # take 3 h"] Cons.prems show ?thesis
      by simp
  next
    case False
    then have "min 4 (lead_run (x # take 4 h)) \<le> min 4 (lead_run h) + 1"
      by (auto simp: h run5_def eval_nat_numeral)
    with False Cons.IH[of "x # take 4 h"] Cons.prems show ?thesis
      by simp
  qed
qed

lemma lead_run_pos: "h \<noteq> [] \<Longrightarrow> 0 < lead_run h"
  by (cases h rule: lead_run.cases) auto

lemma length_stuff_bits_le:
  assumes "length h = 5"
  shows "length (stuff_bits h xs) \<le> length xs + (length xs + 3) div 4"
proof -
  have "stuff_hist h xs \<noteq> []"
    using length_stuff_hist[OF assms, of xs] by auto
  then have "1 \<le> min 4 (lead_run (stuff_hist h xs))"
    using lead_run_pos[of "stuff_hist h xs"] by simp
  with stuff_bits_potential[OF assms, of xs] show ?thesis
    by simp
qed

lemma length_stuff_bits_ge: "length xs \<le> length (stuff_bits h xs)"
  by (induction xs arbitrary: h) (auto intro: le_SucI)

fun const6 :: "bool list \<Rightarrow> bool" where
  "const6 (a # b # c # d # e # f # t) = (a = b \<and> b = c \<and> c = d \<and> d = e \<and> e = f)"
| "const6 t = False"

fun nosix :: "bool list \<Rightarrow> bool" where
  "nosix [] = True"
| "nosix (x # xs) = (\<not> const6 (x # xs) \<and> nosix xs)"

lemma nosix_append: "nosix (xs @ ys) \<Longrightarrow> nosix ys"
  by (induction xs) auto

lemma stuff_bits_nosix:
  "length h = 5 \<Longrightarrow> \<not> run5 h \<Longrightarrow>
     nosix (rev h @ stuff_bits h xs) \<and> \<not> run5 (stuff_hist h xs)"
proof (induction xs arbitrary: h)
  case Nil
  then obtain a b c d e where h: "h = [a, b, c, d, e]"
    by (auto simp: length_Suc_conv eval_nat_numeral)
  with Nil show ?case by simp
next
  case (Cons x xs)
  obtain a b c d e where h: "h = [a, b, c, d, e]"
    using Cons.prems by (auto simp: length_Suc_conv eval_nat_numeral)
  show ?case
  proof (cases "run5 (x # take 4 h)")
    case True
    have "\<not> run5 ((\<not> x) # x # take 3 h)"
      by (auto simp: h run5_def eval_nat_numeral)
    with Cons.IH[of "(\<not> x) # x # take 3 h"] Cons.prems True show ?thesis
      by (auto simp: h run5_def eval_nat_numeral)
  next
    case False
    with Cons.IH[of "x # take 4 h"] Cons.prems show ?thesis
      by (auto simp: h run5_def eval_nat_numeral)
  qed
qed

lemma const6_nth:
  "6 \<le> length xs \<Longrightarrow> const6 xs \<longleftrightarrow> (\<forall>j<5. xs ! j = xs ! Suc j)"
proof -
  assume "6 \<le> length xs"
  then obtain a b c d e f t where "xs = a # b # c # d # e # f # t"
    by (auto simp: length_Suc_conv eval_nat_numeral Suc_le_length_iff)
  then show ?thesis
    by (auto simp: eval_nat_numeral less_Suc_eq)
qed

lemma nosix_nth:
  "nosix xs \<Longrightarrow> k + 6 \<le> length xs \<Longrightarrow> \<exists>j<5. xs ! (k + j) \<noteq> xs ! (k + Suc j)"
proof (induction xs arbitrary: k)
  case Nil
  then show ?case by simp
next
  case (Cons x xs)
  show ?case
  proof (cases k)
    case 0
    with Cons.prems have "\<not> const6 (x # xs)" "6 \<le> length (x # xs)" by auto
    with const6_nth[of "x # xs"] 0 show ?thesis by auto
  next
    case (Suc k')
    with Cons.prems have "nosix xs" "k' + 6 \<le> length xs" by auto
    from Cons.IH[OF this] Suc show ?thesis by auto
  qed
qed

section \<open>The encoder's buffer as a bit stream\<close>

text \<open>
  \<^verbatim>\<open>bs_pushraw\<close> fills each word of the buffer from bit 31 downwards, so bit \<open>k\<close> of the stream
  is bit \<open>31 - k mod 32\<close> of word \<open>k div 32\<close>.
\<close>

definition tx_bit :: "u32 list \<Rightarrow> nat \<Rightarrow> bool" where
  "tx_bit ws k = bit (ws ! (k div 32)) (31 - k mod 32)"


lemma bs_pushraw_nat:
  assumes p: "unat (bitpos bs) = p" and n: "unat count = n"
    and n32: "n \<le> 32" and room: "p + n < 2 ^ 32"
  shows "unat (bitpos (bs_pushraw bs data count)) = p + n"
    and "prev_stuffed (bs_pushraw bs data count) = prev_stuffed bs"
    and "bs_crc (bs_pushraw bs data count) = bs_crc bs"
    and "buf (bs_pushraw bs data count) =
          (if n \<le> 32 - p mod 32
           then (buf bs)[p div 32 := buf bs ! (p div 32) OR push_bit (32 - p mod 32 - n) data]
           else ((buf bs)[p div 32 := buf bs ! (p div 32) OR drop_bit (n - (32 - p mod 32)) data])
                  [p div 32 + 1 := buf bs ! (p div 32 + 1)
                     OR push_bit (32 - (n - (32 - p mod 32))) data])"
proof -
  have wp: "unat (bitpos bs div 32) = p div 32"
    by (simp add: unat_div p)
  have u: "unat (bitpos bs mod 32) = p mod 32"
    by (simp add: unat_mod p)
  have ule: "bitpos bs mod 32 \<le> 32"
    by (simp add: word_le_nat_alt u)
  have av: "unat (32 - bitpos bs mod 32) = 32 - p mod 32"
    by (simp add: unat_sub[OF ule] u)
  have cmp: "(count \<le> 32 - bitpos bs mod 32) = (n \<le> 32 - p mod 32)"
    by (simp add: word_le_nat_alt av n)
  have d1: "unat (32 - bitpos bs mod 32 - count) = 32 - p mod 32 - n" if "n \<le> 32 - p mod 32"
    using that by (simp add: unat_sub cmp av n)
  have cle: "32 - bitpos bs mod 32 \<le> count" if "\<not> n \<le> 32 - p mod 32"
    using that by (simp add: word_le_nat_alt av n)
  have d2: "unat (count - (32 - bitpos bs mod 32)) = n - (32 - p mod 32)"
    if "\<not> n \<le> 32 - p mod 32"
    using cle[OF that] by (simp add: unat_sub av n)
  have c32: "count - (32 - bitpos bs mod 32) \<le> 32" if "\<not> n \<le> 32 - p mod 32"
    using that n32 by (simp add: word_le_nat_alt d2)
  have d3: "unat (32 - (count - (32 - bitpos bs mod 32))) = 32 - (n - (32 - p mod 32))"
    if "\<not> n \<le> 32 - p mod 32"
  proof -
    have "unat (32 - (count - (32 - bitpos bs mod 32))) =
          unat (32 :: u32) - unat (count - (32 - bitpos bs mod 32))"
      by (rule unat_sub[OF c32[OF that]])
    thus ?thesis by (simp only: d2[OF that]) simp
  qed
  have d3': "unat (64 + (- count - bitpos bs mod 32)) = 64 - (n + p mod 32)"
    if "\<not> n \<le> 32 - p mod 32"
    using d3[OF that] that by simp
  show "unat (bitpos (bs_pushraw bs data count)) = p + n"
    using room unat_add_lem[of "bitpos bs" count] by (simp add: bs_pushraw_def Let_def p n)
  show "prev_stuffed (bs_pushraw bs data count) = prev_stuffed bs"
    and "bs_crc (bs_pushraw bs data count) = bs_crc bs"
    by (simp_all add: bs_pushraw_def Let_def)
  show "buf (bs_pushraw bs data count) =
          (if n \<le> 32 - p mod 32
           then (buf bs)[p div 32 := buf bs ! (p div 32) OR push_bit (32 - p mod 32 - n) data]
           else ((buf bs)[p div 32 := buf bs ! (p div 32) OR drop_bit (n - (32 - p mod 32)) data])
                  [p div 32 + 1 := buf bs ! (p div 32 + 1)
                     OR push_bit (32 - (n - (32 - p mod 32))) data])"
    by (simp add: bs_pushraw_def Let_def cmp wp d1 d2 d3')
qed

lemma bit_drop_bit_u32: "bit (drop_bit s (d :: u32)) m = bit d (s + m)"
  by (simp add: bit_drop_bit_eq)

lemma bit_u32_less: "bit (d :: u32) j \<Longrightarrow> j < 32"
  using bit_imp_le_length[of d j] by simp

lemma tx_bit_update:
  "tx_bit (ws[q := v]) k =
     (if k div 32 = q \<and> q < length ws then bit v (31 - k mod 32) else tx_bit ws k)"
  by (cases "q < length ws") (auto simp: tx_bit_def list_update_beyond)

lemma bs_pushraw_stream:
  assumes p: "unat (bitpos bs) = p" and n: "unat count = n"
    and n32: "n \<le> 32" and room: "p + n \<le> 32 * length (buf bs)"
    and small: "p + n < 2 ^ 32"
    and clean: "\<And>k. p \<le> k \<Longrightarrow> k < 32 * length (buf bs) \<Longrightarrow> \<not> tx_bit (buf bs) k"
    and ctx: "\<And>j. n \<le> j \<Longrightarrow> j - n < p mod 32 \<Longrightarrow> bit data j
                \<Longrightarrow> tx_bit (buf bs) (p - 1 - (j - n))"
    and k: "k < 32 * length (buf bs)"
  shows "tx_bit (buf (bs_pushraw bs data count)) k =
           (if k < p then tx_bit (buf bs) k
            else if k < p + n then bit data (p + n - 1 - k) else False)"
proof -
  define q r u wp where "q = k div 32" and "r = k mod 32" and "u = p mod 32" and "wp = p div 32"
  have kq: "k = 32 * q + r" and r: "r < 32" and pw: "p = 32 * wp + u" and u: "u < 32"
    by (simp_all add: q_def r_def u_def wp_def)
  have q: "q < length (buf bs)" using k by (simp add: q_def)
  have kdiv: "k div 32 = q" "k mod 32 = r" by (simp_all add: q_def r_def)
  note B = bs_pushraw_nat(4)[OF p n n32 small, of data, folded u_def wp_def]
  have lt: "31 - r < 32" by arith
  have old: "tx_bit (buf bs) k = bit (buf bs ! q) (31 - r)"
    by (simp add: tx_bit_def kdiv)
  show ?thesis
  proof (cases "n \<le> 32 - u")
    case True
    have buf': "buf (bs_pushraw bs data count) =
                  (buf bs)[wp := buf bs ! wp OR push_bit (32 - u - n) data]"
      using True by (simp add: B)
    show ?thesis
    proof (cases "q = wp")
      case False
      have same: "tx_bit (buf (bs_pushraw bs data count)) k = tx_bit (buf bs) k"
        using False by (simp add: buf' tx_bit_update kdiv)
      show ?thesis
      proof (cases "k < p")
        case True then show ?thesis by (simp add: same)
      next
        case kp: False
        with False have "wp < q" using kq pw r u by arith
        with True u have "p + n \<le> k" using kq pw u r by linarith
        moreover have "\<not> tx_bit (buf bs) k" using clean[of k] kp k by simp
        ultimately show ?thesis using kp by (simp add: same)
      qed
    next
      case qw: True
      have new: "tx_bit (buf (bs_pushraw bs data count)) k =
                  (tx_bit (buf bs) k \<or> (32 - u - n \<le> 31 - r \<and> bit data (31 - r - (32 - u - n))))"
        using qw q r lt by (simp add: buf' tx_bit_update kdiv bit_or_iff bit_push_bit_u32 old)
      consider "r < u" | "u \<le> r" "r < u + n" | "u + n \<le> r" by linarith
      then show ?thesis
      proof cases
        case 1
        then have kp: "k < p" using kq pw qw by simp
        have "tx_bit (buf bs) k" if "bit data (31 - r - (32 - u - n))"
        proof -
          have e: "31 - r - (32 - u - n) = u + n - 1 - r" using 1 True u r by arith
          have d: "bit data (u + n - 1 - r)" using that by (simp only: e)
          have "tx_bit (buf bs) (p - 1 - (u + n - 1 - r - n))"
            using d 1 by (intro ctx) (simp_all add: u_def[symmetric])
          moreover have "p - 1 - (u + n - 1 - r - n) = k" using 1 kq pw qw u r by arith
          ultimately show ?thesis by simp
        qed
        then show ?thesis using kp by (auto simp: new)
      next
        case 2
        then have kp: "\<not> k < p" "k < p + n" using kq pw qw by simp_all
        have "\<not> tx_bit (buf bs) k" using clean[of k] kp k by simp
        moreover have "31 - r - (32 - u - n) = p + n - 1 - k" "32 - u - n \<le> 31 - r"
          using 2 True kq pw qw u r by arith+
        ultimately show ?thesis using kp by (simp add: new)
      next
        case 3
        then have kp: "\<not> k < p" "\<not> k < p + n" using kq pw qw by simp_all
        have "\<not> tx_bit (buf bs) k" using clean[of k] kp k by simp
        moreover have "\<not> 32 - u - n \<le> 31 - r" using 3 r u r by arith
        ultimately show ?thesis using kp by (simp add: new)
      qed
    qed
  next
    case False
    define s where "s = n - (32 - u)"
    have s: "0 < s" "s \<le> 32" "u + n = 32 + s" using False n32 u by (simp_all add: s_def)
    have buf': "buf (bs_pushraw bs data count) =
                  ((buf bs)[wp := buf bs ! wp OR drop_bit s data])
                     [wp + 1 := buf bs ! (wp + 1) OR push_bit (32 - s) data]"
      using False by (simp add: B s_def)
    have wp1: "wp + 1 < length (buf bs)" using room pw s u r by arith
    consider "q = wp" | "q = wp + 1" | "q \<noteq> wp" "q \<noteq> wp + 1" by blast
    then show ?thesis
    proof cases
      case 1
      have new: "tx_bit (buf (bs_pushraw bs data count)) k =
                  (tx_bit (buf bs) k \<or> bit data (s + (31 - r)))"
        using 1 q by (simp add: buf' tx_bit_update kdiv bit_or_iff bit_drop_bit_u32 old)
      show ?thesis
      proof (cases "r < u")
        case True
        then have kp: "k < p" using kq pw 1 by simp
        have "tx_bit (buf bs) k" if "bit data (s + (31 - r))"
        proof -
          have e: "s + (31 - r) = u + n - 1 - r" using True s r u r by arith
          have d: "bit data (u + n - 1 - r)" using that by (simp only: e)
          have "tx_bit (buf bs) (p - 1 - (u + n - 1 - r - n))"
            using d True by (intro ctx) (simp_all add: u_def[symmetric])
          moreover have "p - 1 - (u + n - 1 - r - n) = k" using True kq pw 1 u r by arith
          ultimately show ?thesis by simp
        qed
        then show ?thesis using kp by (auto simp: new)
      next
        case ru: False
        then have kp: "\<not> k < p" "k < p + n" using kq pw 1 r s by simp_all
        have "\<not> tx_bit (buf bs) k" using clean[of k] kp k by simp
        moreover have "s + (31 - r) = p + n - 1 - k" using ru s r kq pw 1 u r by arith
        ultimately show ?thesis using kp by (simp add: new)
      qed
    next
      case 2
      have kp: "\<not> k < p" using kq pw 2 u by simp
      have z: "\<not> tx_bit (buf bs) k" using clean[of k] kp k by simp
      have new: "tx_bit (buf (bs_pushraw bs data count)) k =
                  (32 - s \<le> 31 - r \<and> bit data (31 - r - (32 - s)))"
        using 2 q wp1 r z lt by (simp add: buf' tx_bit_update kdiv bit_or_iff bit_push_bit_u32 old)
      show ?thesis
      proof (cases "r < s")
        case True
        then have "k < p + n" using kq pw 2 s u r by arith
        moreover have "31 - r - (32 - s) = p + n - 1 - k" "32 - s \<le> 31 - r"
          using True s r kq pw 2 u r by arith+
        ultimately show ?thesis using kp by (simp add: new)
      next
        case False
        then have "\<not> k < p + n" using kq pw 2 s u r by arith
        moreover have "\<not> 32 - s \<le> 31 - r" using False s r u r by arith
        ultimately show ?thesis using kp by (simp add: new)
      qed
    next
      case 3
      have same: "tx_bit (buf (bs_pushraw bs data count)) k = tx_bit (buf bs) k"
        using 3 by (simp add: buf' tx_bit_update kdiv)
      show ?thesis
      proof (cases "k < p")
        case True then show ?thesis by (simp add: same)
      next
        case kp: False
        with 3 have "wp + 1 < q" using kq pw r u by arith
        then have "p + n \<le> k" using kq pw s u r by arith
        moreover have "\<not> tx_bit (buf bs) k" using clean[of k] kp k by simp
        ultimately show ?thesis using kp by (simp add: same)
      qed
    qed
  qed
qed

lemma length_buf_bs_pushraw [simp]:
  "length (buf (bs_pushraw bs data count)) = length (buf bs)"
  unfolding bs_pushraw_def Let_def
  by (cases "count \<le> 32 - bitpos bs mod 32") simp_all

text \<open>
  The state of the bit stuffer after the bits \<open>out\<close> have been written: \<open>bitpos\<close> counts them, the
  buffer holds them followed by zeros, and \<open>prev_stuffed\<close> holds the most recent of them from
  bit 0 upwards.
\<close>

definition bs_inv :: "bitstuffer_s \<Rightarrow> bool list \<Rightarrow> bool" where
  "bs_inv bs out \<longleftrightarrow>
     unat (bitpos bs) = length out
     \<and> (\<forall>k < 32 * length (buf bs). tx_bit (buf bs) k = (k < length out \<and> out ! k))
     \<and> (\<forall>i < 32. i < length out \<longrightarrow> bit (prev_stuffed bs) i = out ! (length out - 1 - i))"

lemma push_bit_1_minus_1: "push_bit k 1 - 1 = (mask k :: u32)"
  by (simp add: mask_eq_exp_minus_1 push_bit_of_1)

lemma two_pow_minus_1: "2 ^ k - 1 = (mask k :: u32)"
  by (simp add: mask_eq_exp_minus_1)

lemma bits_msb_nth: "i < n \<Longrightarrow> bits_msb w n ! i = bit w (n - 1 - i)"
  by (simp add: bits_msb_def rev_nth)

lemma hist_0_eq: "hist w 0 = take 5 (rev (bits_msb w L) @ hist w L)"
proof -
  have "rev (bits_msb w L) @ hist w L = map (bit w) ([0..<L] @ [L..<L + 5])"
    by (simp add: bits_msb_def hist_def rev_map)
  also have "[0..<L] @ [L..<L + 5] = [0..<L + 5]"
    by (simp add: upt_add_eq_append[symmetric])
  finally show ?thesis
    by (simp add: hist_def take_map)
qed

lemma hist_cong: "(\<And>i. i < 5 \<Longrightarrow> bit v (a + i) = bit w (b + i)) \<Longrightarrow> hist v a = hist w b"
  by (rule nth_equalityI) (simp_all add: hist_def)

lemma bs_crc_bs_pushraw [simp]: "bs_crc (bs_pushraw bs data count) = bs_crc bs"
  by (simp add: bs_pushraw_def Let_def)


lemma bs_push_length [simp]: "length (buf (bs_push bs data0 count)) = length (buf bs)"
  by (simp add: bs_push_def Let_def)

lemma bs_push_step:
  assumes inv: "bs_inv bs out"
    and k: "unat count = k" "k \<le> 19" "sint (count - 1) = int k - 1"
    and room: "length out + k + (k + 3) div 4 \<le> 32 * length (buf bs)"
    and small: "length out < 2 ^ 31"
  shows "bs_inv (bs_push bs data0 count)
           (out @ stuff_bits (hist (prev_stuffed bs) 0) (bits_msb data0 k))"
    and "hist (prev_stuffed (bs_push bs data0 count)) 0
           = stuff_hist (hist (prev_stuffed bs) 0) (bits_msb data0 k)"
proof -
  define h xs chunk L where "h = hist (prev_stuffed bs) 0" and "xs = bits_msb data0 k"
    and "chunk = stuff_bits h xs" and "L = length chunk"
  define data where "data = data0 AND (push_bit k 1 - 1)"
  define stuf0 where "stuf0 = push_bit k (prev_stuffed bs) OR data"
  define bs1 where "bs1 = bs\<lparr>bs_crc := crcbits (bs_crc bs) data count\<rparr>"
  define p where "p = length out"
  have bit0: "bit stuf0 j = (if j < k then bit data0 j else j < 32 \<and> bit (prev_stuffed bs) (j - k))"
    for j
    using k(2) by (auto simp: stuf0_def data_def two_pow_minus_1 bit_or_iff bit_and_iff
        bit_push_bit_u32 bit_mask_u32 dest: bit_u32_less)
  have xs0: "bits_msb stuf0 k = xs"
    unfolding xs_def by (rule bits_msb_cong) (simp add: bit0)
  have h0: "hist stuf0 k = h"
    unfolding h_def using k(2) hist_cong[of stuf0 k "prev_stuffed bs" 0] by (simp add: bit0)
  have Lle: "L \<le> k + (k + 3) div 4"
    using length_stuff_bits_le[of h xs] by (simp add: L_def chunk_def h_def xs_def)
  have L24: "L \<le> 24" using Lle k(2) by arith
  have kL: "k \<le> L"
    using length_stuff_bits_ge[of xs h] by (simp add: L_def chunk_def xs_def)
  from bitstuff_loop_refines[of k stuf0 count] k(2)
  obtain b' where loop: "bitstuff_loop stuf0 (stuf0 XOR drop_bit 1 stuf0) count (int k - 1)
                           = (b', count + of_nat (L - k))"
    and low: "bits_msb b' L = chunk"
    and high: "\<And>j. L + j < 32 \<Longrightarrow> bit b' (L + j) = bit stuf0 (k + j)"
    using L24 unfolding xs0 h0 chunk_def[symmetric] L_def[symmetric] by auto
  define newcount where "newcount = count + of_nat (L - k)"
  have bst: "bitstuff stuf0 count = (b', newcount)"
    using loop by (simp add: bitstuff_def Let_def k(3) newcount_def)
  have un: "unat newcount = L"
  proof -
    have "unat (of_nat (L - k) :: u32) = L - k"
      using L24 by (simp add: unat_of_nat)
    then have "unat newcount = k + (L - k)"
      unfolding newcount_def using L24 k(1) k(2) kL unat_add_lem[of count "of_nat (L - k)"] by simp
    then show ?thesis using kL by simp
  qed
  have push: "bs_push bs data0 count = (bs_pushraw bs1 b' newcount)\<lparr>prev_stuffed := b'\<rparr>"
    using bst by (simp add: bs_push_def Let_def k(1) data_def stuf0_def bs1_def)
  from inv have I1: "unat (bitpos bs1) = p"
    and I2: "\<And>j. j < 32 * length (buf bs1) \<Longrightarrow> tx_bit (buf bs1) j = (j < p \<and> out ! j)"
    and I3: "\<And>i. i < 32 \<Longrightarrow> i < p \<Longrightarrow> bit (prev_stuffed bs) i = out ! (p - 1 - i)"
    by (simp_all add: bs_inv_def bs1_def p_def)
  have len1: "length (buf bs1) = length (buf bs)" by (simp add: bs1_def)
  have room': "p + L \<le> 32 * length (buf bs1)"
    using room Lle by (simp add: p_def len1)
  have small': "p + L < 2 ^ 32"
    using L24 small by (simp add: p_def)
  have highp: "bit b' j = bit (prev_stuffed bs) (j - L)" if "L \<le> j" "j < 32" for j
  proof -
    have "bit b' (L + (j - L)) = bit stuf0 (k + (j - L))"
      using that by (intro high) simp
    moreover have "k + (j - L) < 32" using that kL by arith
    then have "bit stuf0 (k + (j - L)) = bit (prev_stuffed bs) (j - L)"
      unfolding bit0 by simp
    moreover have "L + (j - L) = j" using that by simp
    ultimately show ?thesis by simp
  qed
  have stream: "tx_bit (buf (bs_pushraw bs1 b' newcount)) j =
           (if j < p then tx_bit (buf bs1) j
            else if j < p + L then bit b' (p + L - 1 - j) else False)"
    if "j < 32 * length (buf bs1)" for j
  proof (rule bs_pushraw_stream[OF I1 un _ room' small' _ _ that])
    show "L \<le> 32" using L24 by simp
  next
    fix j assume "p \<le> j" "j < 32 * length (buf bs1)"
    then show "\<not> tx_bit (buf bs1) j" by (simp add: I2)
  next
    fix j assume j: "L \<le> j" "j - L < p mod 32" "bit b' j"
    then have j32: "j < 32" by (auto dest: bit_u32_less)
    have lt: "j - L < p" using j(2) mod_less_eq_dividend[of p 32] by linarith
    have "p - 1 - (j - L) < p" using lt by arith
    then have "p - 1 - (j - L) < 32 * length (buf bs1)" using room' by linarith
    moreover have "bit (prev_stuffed bs) (j - L)" using j highp[OF j(1) j32] by simp
    ultimately show "tx_bit (buf bs1) (p - 1 - (j - L))"
      using lt j32 by (simp add: I2 I3)
  qed
  have out': "(out @ chunk) ! j = (if j < p then out ! j else bit b' (p + L - 1 - j))"
    if "j < p + L" for j
  proof (cases "j < p")
    case True then show ?thesis by (simp add: nth_append p_def)
  next
    case False
    then have "(out @ chunk) ! j = bits_msb b' L ! (j - p)"
      by (simp add: nth_append p_def low)
    also have "\<dots> = bit b' (L - 1 - (j - p))"
      using that False by (intro bits_msb_nth) arith
    also have "L - 1 - (j - p) = p + L - 1 - j" using that False by arith
    finally show ?thesis using False by simp
  qed
  show "bs_inv (bs_push bs data0 count)
           (out @ stuff_bits (hist (prev_stuffed bs) 0) (bits_msb data0 k))"
    unfolding bs_inv_def chunk_def[unfolded h_def xs_def, symmetric]
  proof (intro conjI allI impI)
    show "unat (bitpos (bs_push bs data0 count)) = length (out @ chunk)"
      using bs_pushraw_nat(1)[OF I1 un _ small', of b'] L24
      by (simp add: push p_def L_def)
  next
    fix j assume "j < 32 * length (buf (bs_push bs data0 count))"
    then have j: "j < 32 * length (buf bs1)" by (simp add: len1)
    show "tx_bit (buf (bs_push bs data0 count)) j = (j < length (out @ chunk) \<and> (out @ chunk) ! j)"
      using stream[OF j] out'[of j] I2[OF j]
      by (auto simp: push p_def L_def)
  next
    fix i assume i: "i < 32" "i < length (out @ chunk)"
    then have ipl: "i < p + L" by (simp add: p_def L_def)
    have "(out @ chunk) ! (p + L - 1 - i) = bit b' i"
    proof (cases "i < L")
      case True
      then have "\<not> p + L - 1 - i < p" "p + L - 1 - i < p + L" by arith+
      moreover have "p + L - 1 - (p + L - 1 - i) = i" using ipl by arith
      ultimately show ?thesis using out'[of "p + L - 1 - i"] by simp
    next
      case False
      then have a: "p + L - 1 - i < p" "p + L - 1 - i < p + L" using ipl by arith+
      have "bit b' i = bit (prev_stuffed bs) (i - L)" using False i by (intro highp) simp_all
      also have "\<dots> = out ! (p - 1 - (i - L))" using False i ipl by (intro I3) arith+
      also have "p - 1 - (i - L) = p + L - 1 - i" using False ipl by arith
      finally show ?thesis using out'[of "p + L - 1 - i"] a by simp
    qed
    then show "bit (prev_stuffed (bs_push bs data0 count)) i
                 = (out @ chunk) ! (length (out @ chunk) - 1 - i)"
      by (simp add: push p_def L_def)
  qed
  have "hist b' 0 = take 5 (rev (bits_msb b' L) @ hist b' L)"
    by (rule hist_0_eq)
  also have "hist b' L = hist stuf0 k"
    using L24 by (intro hist_cong high) simp
  also have "take 5 (rev (bits_msb b' L) @ hist stuf0 k) = stuff_hist h xs"
    unfolding low h0 chunk_def by (rule stuff_hist_eq[symmetric]) (simp add: h_def)
  finally show "hist (prev_stuffed (bs_push bs data0 count)) 0
           = stuff_hist (hist (prev_stuffed bs) 0) (bits_msb data0 k)"
    by (simp add: push h_def xs_def)
qed

section \<open>CRC-15 over a bit list\<close>








section \<open>The encoder state after a sequence of fields\<close>

text \<open>
  \<^verbatim>\<open>can2040_transmit\<close> starts the bit stuffer with \<open>prev_stuffed = 1\<close>: the context \<open>idle_hist\<close> of a
  recessive bus before the start of frame. \<open>enc_inv bs xs\<close> says that the bit stuffer \<open>bs\<close> holds
  the stuffed form of the bits \<open>xs\<close> pushed so far.
\<close>

definition idle_hist :: "bool list" where
  "idle_hist = [True, False, False, False, False]"

definition enc_inv :: "bitstuffer_s \<Rightarrow> bool list \<Rightarrow> bool" where
  "enc_inv bs xs \<longleftrightarrow>
     bs_inv bs (stuff_bits idle_hist xs)
     \<and> hist (prev_stuffed bs) 0 = stuff_hist idle_hist xs"

lemma length_idle_hist [simp]: "length idle_hist = 5"
  by (simp add: idle_hist_def)

lemma tx_bit_replicate_0: "k < 32 * n \<Longrightarrow> \<not> tx_bit (replicate n 0) k"
  by (simp add: tx_bit_def)

lemma enc_inv_init:
  "enc_inv \<lparr>prev_stuffed = 1, bitpos = 0, buf = replicate n 0, bs_crc = 0\<rparr> []"
  by (simp add: enc_inv_def bs_inv_def tx_bit_replicate_0 hist_eq bit_one_u32 idle_hist_def)

lemma length_stuff_bits_append_le:
  assumes "length h = 5"
  shows "length (stuff_bits h (xs @ ys))
           \<le> length (stuff_bits h xs) + length ys + (length ys + 3) div 4"
  using length_stuff_bits_le[of "stuff_hist h xs" ys] assms
  by (simp add: stuff_bits_append length_stuff_hist)

lemma enc_push:
  assumes inv: "enc_inv bs xs"
    and k: "unat count = k" "k \<le> 19" "sint (count - 1) = int k - 1"
    and room: "length (stuff_bits idle_hist xs) + k + (k + 3) div 4 \<le> 32 * length (buf bs)"
    and small: "length (stuff_bits idle_hist xs) < 2 ^ 31"
  shows "enc_inv (bs_push bs data0 count) (xs @ bits_msb data0 k)"
proof -
  from inv have a: "bs_inv bs (stuff_bits idle_hist xs)"
    and b: "hist (prev_stuffed bs) 0 = stuff_hist idle_hist xs"
    by (simp_all add: enc_inv_def)
  from bs_push_step[OF a k room small, of data0, unfolded b] show ?thesis
    by (simp add: enc_inv_def stuff_bits_append stuff_hist_append)
qed


text \<open>
  \<open>data_bits d i n\<close> is the bits of the payload bytes \<open>d[i]\<close>, ..., \<open>d[n - 1]\<close>.
\<close>

definition data_bits :: "u8 list \<Rightarrow> nat \<Rightarrow> nat \<Rightarrow> bool list" where
  "data_bits d i n = concat (map (\<lambda>j. bits_msb (ucast (d ! j) :: u32) 8) [i..<n])"

lemma data_bits_step:
  "i < n \<Longrightarrow> data_bits d i n = bits_msb (ucast (d ! i) :: u32) 8 @ data_bits d (Suc i) n"
  by (simp add: data_bits_def upt_conv_Cons)

lemma data_bits_done: "n \<le> i \<Longrightarrow> data_bits d i n = []"
  by (simp add: data_bits_def)

lemma length_data_bits: "length (data_bits d i n) = 8 * (n - i)"
proof (induction "n - i" arbitrary: i)
  case 0
  then show ?case by (simp add: data_bits_done)
next
  case (Suc m)
  then have "i < n" by simp
  with Suc(1)[of "Suc i"] Suc(2) show ?case
    by (simp add: data_bits_step)
qed

lemma enc_push_data:
  assumes "enc_inv bs xs" "unat len \<le> 8" "unat i \<le> unat len"
    and "length (stuff_bits idle_hist xs) + 10 * (unat len - unat i) \<le> 32 * length (buf bs)"
    and "length (stuff_bits idle_hist xs) + 10 * (unat len - unat i) < 2 ^ 30"
  shows "enc_inv (tx_push_data bs d i len) (xs @ data_bits d (unat i) (unat len))
         \<and> length (buf (tx_push_data bs d i len)) = length (buf bs)"
  using assms
proof (induction bs d i len arbitrary: xs rule: tx_push_data.induct)
  case (1 bs d i len)
  show ?case
  proof (cases "i < len")
    case False
    then have "unat len \<le> unat i" by (simp add: word_less_nat_alt)
    with False "1.prems"(1) show ?thesis
      by (simp add: tx_push_data.simps[of bs d i len] data_bits_done)
  next
    case True
    then have lt: "unat i < unat len" by (simp add: word_less_nat_alt)
    have i1: "unat (i + 1) = Suc (unat i)"
      using lt "1.prems"(2) by (simp add: unat_word_ariths)
    define ys where "ys = bits_msb (ucast (d ! unat i) :: u32) 8"
    have e: "enc_inv (bs_push bs (ucast (d ! unat i)) 8) (xs @ ys)"
      unfolding ys_def using "1.prems" lt
      by (intro enc_push[where k = 8]) simp_all
    have "length (stuff_bits idle_hist (xs @ ys)) \<le> length (stuff_bits idle_hist xs) + 10"
      using length_stuff_bits_append_le[of idle_hist xs ys] by (simp add: ys_def)
    with "1.prems" lt i1
    have "enc_inv (tx_push_data (bs_push bs (ucast (d ! unat i)) 8) d (i + 1) len)
            ((xs @ ys) @ data_bits d (unat (i + 1)) (unat len))
          \<and> length (buf (tx_push_data (bs_push bs (ucast (d ! unat i)) 8) d (i + 1) len))
              = length (buf (bs_push bs (ucast (d ! unat i)) 8))"
      by (intro "1.IH"[OF True e]) simp_all
    then show ?thesis
      using True lt
      by (simp add: tx_push_data.simps[of bs d i len] i1 data_bits_step[of "unat i"] ys_def)
  qed
qed


subsection \<open>Delimiter and padding\<close>

lemma bs_finalize_nat:
  assumes P: "unat (bitpos bs) = P" "0 < P" "P < 2 ^ 31"
  shows "fst (bs_finalize bs) = of_nat ((P + 31) div 32)"
    and "buf (snd (bs_finalize bs))
           = (if 32 * ((P + 31) div 32) - P \<noteq> 0
              then (buf bs)[(P + 31) div 32 - 1 :=
                     buf bs ! ((P + 31) div 32 - 1) OR mask (32 * ((P + 31) div 32) - P)]
              else buf bs)"
proof -
  define W where "W = (P + 31) div 32"
  define words where "words = (bitpos bs + 31) div 32"
  have u31: "unat (bitpos bs + 31) = P + 31"
    using P unat_add_lem[of "bitpos bs" 31] by simp
  have uw: "unat words = W"
    by (simp add: words_def W_def unat_div u31)
  have W: "0 < W" "P \<le> 32 * W" "32 * W < P + 32" "W < 2 ^ 27"
    using P by (simp_all add: W_def)
  have um: "unat (words * 32) = 32 * W"
    using unat_mult_lem[of words 32] W by (simp add: uw)
  have le: "bitpos bs \<le> words * 32"
    using W by (simp add: word_le_nat_alt um P)
  have ue: "unat (words * 32 - bitpos bs) = 32 * W - P"
    by (simp add: unat_sub[OF le] um P)
  have one: "(1 :: u32) \<le> words"
    using W by (simp add: word_le_nat_alt uw)
  have u1: "unat (words - 1) = W - 1"
    by (simp add: unat_sub[OF one] uw)
  have ne: "(words * 32 - bitpos bs \<noteq> 0) = (32 * W - P \<noteq> 0)"
    using ue by (metis unat_eq_0)
  have w: "words = of_nat W"
  proof -
    have "words = of_nat (unat words)" by simp
    then show ?thesis by (simp only: uw)
  qed
  have e: "bitpos bs + 32 - 1 = bitpos bs + 31" by simp
  have fin: "bs_finalize bs =
     (if words * 32 - bitpos bs \<noteq> 0
      then (words, bs\<lparr>buf := (buf bs)[unat (words - 1) :=
                              buf bs ! unat (words - 1)
                                OR (push_bit (unat (words * 32 - bitpos bs)) 1 - 1)]\<rparr>)
      else (words, bs))"
    unfolding bs_finalize_def Let_def e words_def[symmetric] by (rule refl)
  show "fst (bs_finalize bs) = of_nat ((P + 31) div 32)"
    unfolding fin W_def[symmetric] by (simp add: w)
  show "buf (snd (bs_finalize bs))
           = (if 32 * ((P + 31) div 32) - P \<noteq> 0
              then (buf bs)[(P + 31) div 32 - 1 :=
                     buf bs ! ((P + 31) div 32 - 1) OR mask (32 * ((P + 31) div 32) - P)]
              else buf bs)"
    unfolding fin W_def[symmetric] ne ue u1 by (simp add: two_pow_minus_1)
qed

lemma bs_finish:
  assumes inv: "bs_inv bs out"
    and room: "length out + 1 \<le> 32 * length (buf bs)"
    and small: "length out < 2 ^ 30"
  shows "fst (bs_finalize (bs_pushraw bs 1 1)) = of_nat (length out div 32 + 1)"
    and "length (buf (snd (bs_finalize (bs_pushraw bs 1 1)))) = length (buf bs)"
    and "k < 32 * length (buf bs) \<Longrightarrow>
         tx_bit (buf (snd (bs_finalize (bs_pushraw bs 1 1)))) k
           = (if k < length out then out ! k else k < 32 * (length out div 32 + 1))"
proof -
  define L where "L = length out"
  define bs4 where "bs4 = bs_pushraw bs 1 1"
  define E where "E = 31 - L mod 32"
  from inv have I1: "unat (bitpos bs) = L"
    and I2: "\<And>j. j < 32 * length (buf bs) \<Longrightarrow> tx_bit (buf bs) j = (j < L \<and> out ! j)"
    by (simp_all add: bs_inv_def L_def)
  have u1: "unat (1 :: u32) = 1" by simp
  have sm: "L + 1 < 2 ^ 32" using small by (simp add: L_def)
  have room': "L + 1 \<le> 32 * length (buf bs)" using room by (simp add: L_def)
  have P: "unat (bitpos bs4) = L + 1"
    unfolding bs4_def by (rule bs_pushraw_nat(1)[OF I1 u1 _ sm]) simp
  have len4: "length (buf bs4) = length (buf bs)" by (simp add: bs4_def)
  have s4: "tx_bit (buf bs4) j = (if j < L then out ! j else j = L)"
    if j: "j < 32 * length (buf bs)" for j
  proof -
    have "tx_bit (buf bs4) j =
           (if j < L then tx_bit (buf bs) j
            else if j < L + 1 then bit (1 :: u32) (L + 1 - 1 - j) else False)"
      unfolding bs4_def
    proof (rule bs_pushraw_stream[OF I1 u1 _ room' sm _ _ j])
      show "(1 :: nat) \<le> 32" by simp
    next
      fix i assume "L \<le> i" "i < 32 * length (buf bs)"
      then show "\<not> tx_bit (buf bs) i" by (simp add: I2)
    next
      fix i :: nat assume "1 \<le> i" "bit (1 :: u32) i"
      then show "tx_bit (buf bs) (L - 1 - (i - 1))" by (simp add: bit_one_u32)
    qed
    then show ?thesis using j by (auto simp: I2 bit_one_u32)
  qed
  have W: "(L + 1 + 31) div 32 = L div 32 + 1" by simp
  have Eeq: "32 * (L div 32 + 1) - (L + 1) = E"
    unfolding E_def by (simp add: minus_mod_eq_mult_div[symmetric]) 
  have fin: "buf (snd (bs_finalize bs4))
               = (if E \<noteq> 0 then (buf bs4)[L div 32 := buf bs4 ! (L div 32) OR mask E]
                  else buf bs4)"
  proof -
    have pos: "0 < L + 1" by simp
    have s31: "L + 1 < 2 ^ 31" using small by (simp add: L_def)
    have W': "(L + 1 + 31) div 32 - 1 = L div 32" by simp
    have E': "32 * ((L + 1 + 31) div 32) - (L + 1) = E" using Eeq by (simp only: W)
    show ?thesis by (rule bs_finalize_nat(2)[OF P pos s31, unfolded E' W'])
  qed
  show "fst (bs_finalize (bs_pushraw bs 1 1)) = of_nat (length out div 32 + 1)"
  proof -
    have pos: "0 < L + 1" by simp
    have s31: "L + 1 < 2 ^ 31" using small by (simp add: L_def)
    show ?thesis
      using bs_finalize_nat(1)[OF P pos s31, unfolded W] by (simp only: bs4_def L_def)
  qed
  show "length (buf (snd (bs_finalize (bs_pushraw bs 1 1)))) = length (buf bs)"
    by (simp add: fin[unfolded bs4_def] )
  show "tx_bit (buf (snd (bs_finalize (bs_pushraw bs 1 1)))) k
           = (if k < length out then out ! k else k < 32 * (length out div 32 + 1))"
    if k: "k < 32 * length (buf bs)"
  proof -
    have wl: "L div 32 < length (buf bs4)" using room' by (simp add: len4)
    have "tx_bit (buf (snd (bs_finalize bs4))) k
            = (tx_bit (buf bs4) k \<or> (k div 32 = L div 32 \<and> 31 - k mod 32 < E))"
    proof (cases "E \<noteq> 0 \<and> k div 32 = L div 32")
      case True
      have lt: "31 - k mod 32 < 32" by arith
      have "tx_bit (buf (snd (bs_finalize bs4))) k
              = bit (buf bs4 ! (L div 32) OR mask E) (31 - k mod 32)"
        using True wl by (simp add: fin tx_bit_update)
      also have "\<dots> = (bit (buf bs4 ! (k div 32)) (31 - k mod 32) \<or> 31 - k mod 32 < E)"
        using True lt by (simp add: bit_or_iff bit_mask_u32)
      finally show ?thesis using True by (simp add: tx_bit_def)
    next
      case False
      then have "tx_bit (buf (snd (bs_finalize bs4))) k = tx_bit (buf bs4) k"
        by (auto simp: fin tx_bit_update)
      then show ?thesis using False by auto
    qed
    also have "\<dots> = (if k < L then out ! k else k < 32 * (L div 32 + 1))"
    proof (cases "k < L")
      case True
      have "\<not> (k div 32 = L div 32 \<and> 31 - k mod 32 < E)"
      proof
        assume a: "k div 32 = L div 32 \<and> 31 - k mod 32 < E"
        then have "L mod 32 < k mod 32" unfolding E_def by arith
        with a have "L < k"
          using div_mult_mod_eq[of k 32] div_mult_mod_eq[of L 32] by arith
        with True show False by simp
      qed
      then show ?thesis using True s4[OF k] by auto
    next
      case False
      have "(k = L \<or> (k div 32 = L div 32 \<and> 31 - k mod 32 < E)) = (k < 32 * (L div 32 + 1))"
      proof -
        define a r b s where "a = k div 32" and "r = k mod 32" and "b = L div 32"
          and "s = L mod 32"
        have kk: "k = 32 * a + r" "r < 32" and ll: "L = 32 * b + s" "s < 32"
          by (simp_all add: a_def r_def b_def s_def)
        have "(k = L \<or> (a = b \<and> 31 - r < 31 - s)) = (k < 32 * (b + 1))"
        proof (cases "k < 32 * b + 32")
          case True
          with False kk ll have "a \<le> b" "b \<le> a" by linarith+
          then have ab: "a = b" by simp
          have "k = L \<or> 31 - r < 31 - s" using False kk ll ab True by linarith
          with True ab show ?thesis by simp
        next
          case f: False
          with False kk ll have "\<not> a \<le> b" "k \<noteq> L" by linarith+
          with f show ?thesis by simp
        qed
        then show ?thesis by (simp only: a_def r_def b_def s_def E_def)
      qed
      then show ?thesis using False s4[OF k] by auto
    qed
    finally show ?thesis by (simp add: bs4_def L_def)
  qed
qed

section \<open>Enqueueing a frame\<close>

text \<open>
  The encoding steps of \<^verbatim>\<open>can2040_transmit\<close> as functions of the sanitized frame \<open>qm\<close> and
  of the size of the slot's word array: \<open>encode_data\<close> is the bit stuffer after the header and
  the payload, \<open>encode_frame\<close> after the CRC as well.
\<close>

definition encode_data :: "can2040_msg \<Rightarrow> nat \<Rightarrow> bitstuffer_s" where
  "encode_data qm nwords =
     tx_push_data
       (bs_push \<lparr>prev_stuffed = 1, bitpos = 0, buf = replicate nwords 0, bs_crc = 0\<rparr>
          (push_bit 7 (addr qm) OR data_len qm) 19)
       (d1 qm) 0 (data_len qm)"

definition encode_frame :: "can2040_msg \<Rightarrow> nat \<Rightarrow> bitstuffer_s" where
  "encode_frame qm nwords =
     bs_push (encode_data qm nwords) (bs_crc (encode_data qm nwords) AND 0x7fff) 15"

text \<open>
  Specification of the frame on the wire: \<open>frame_bits m\<close> is the 19 bits of
  \<open>(id << 7) | dlc\<close> followed by the 8 bits of each of the first \<open>dlc\<close> payload bytes, and
  \<open>tx_frame m c\<close> is the stuffed form of these bits followed by the 15 bits of the CRC \<open>c\<close>.
\<close>

definition frame_bits :: "can2040_msg \<Rightarrow> bool list" where
  "frame_bits m =
     bits_msb (push_bit 7 (addr m) OR data_len m) 19 @ data_bits (d1 m) 0 (unat (data_len m))"

definition tx_frame :: "can2040_msg \<Rightarrow> u32 \<Rightarrow> bool list" where
  "tx_frame m c = stuff_bits idle_hist (frame_bits m @ bits_msb c 15)"



lemma length_tx_frame: "length (tx_frame m c) \<le> 43 + 10 * unat (data_len m)"
proof -
  define a where "a = bits_msb (push_bit 7 (addr m) OR data_len m) 19"
  define b where "b = data_bits (d1 m) 0 (unat (data_len m))"
  have "length (stuff_bits idle_hist a) \<le> 24"
    using length_stuff_bits_le[of idle_hist a] by (simp add: a_def)
  moreover have "length (stuff_bits idle_hist (a @ b))
                   \<le> length (stuff_bits idle_hist a) + 10 * unat (data_len m)"
    using length_stuff_bits_append_le[of idle_hist a b] by (simp add: b_def length_data_bits)
  moreover have "length (stuff_bits idle_hist ((a @ b) @ bits_msb c 15))
                   \<le> length (stuff_bits idle_hist (a @ b)) + 19"
    using length_stuff_bits_append_le[of idle_hist "a @ b" "bits_msb c 15"] by simp
  ultimately show ?thesis
    by (simp add: tx_frame_def frame_bits_def a_def b_def)
qed

lemma encode_frame_inv:
  assumes len: "data_len qm \<le> 8" and n: "4 \<le> n"
  shows "enc_inv (encode_frame qm n)
           (frame_bits qm @ bits_msb (bs_crc (encode_data qm n) AND 0x7fff) 15)"
    and "length (buf (encode_frame qm n)) = n"
proof -
  define bs0 where "bs0 = \<lparr>prev_stuffed = 1, bitpos = 0, buf = replicate n 0, bs_crc = 0\<rparr>"
  define a where "a = bits_msb (push_bit 7 (addr qm) OR data_len qm) 19"
  define b where "b = data_bits (d1 qm) 0 (unat (data_len qm))"
  define bs1 where "bs1 = bs_push bs0 (push_bit 7 (addr qm) OR data_len qm) 19"
  have l8: "unat (data_len qm) \<le> 8"
    using len by (simp add: word_le_nat_alt)
  have e0: "enc_inv bs0 []" unfolding bs0_def by (rule enc_inv_init)
  have e1: "enc_inv bs1 ([] @ a)"
    unfolding bs1_def a_def using n
    by (intro enc_push[OF e0, where k = 19]) (simp_all add: bs0_def)
  have len1: "length (buf bs1) = n" by (simp add: bs1_def bs0_def)
  have la: "length (stuff_bits idle_hist a) \<le> 24"
    using length_stuff_bits_le[of idle_hist a] by (simp add: a_def)
  have e2: "enc_inv (encode_data qm n) (a @ b)
            \<and> length (buf (encode_data qm n)) = length (buf bs1)"
    unfolding encode_data_def bs0_def[symmetric] bs1_def[symmetric] b_def
    using enc_push_data[of bs1 a "data_len qm" 0 "d1 qm"] e1 l8 la n
    by (simp add: len1)
  have lab: "length (stuff_bits idle_hist (a @ b)) \<le> 104"
    using length_stuff_bits_append_le[of idle_hist a b] la l8
    by (simp add: b_def length_data_bits)
  show "enc_inv (encode_frame qm n)
           (frame_bits qm @ bits_msb (bs_crc (encode_data qm n) AND 0x7fff) 15)"
    unfolding encode_frame_def frame_bits_def a_def[symmetric] b_def[symmetric]
    using e2 lab n
    by (intro enc_push[where k = 15]) (simp_all add: len1)
  show "length (buf (encode_frame qm n)) = n"
    using e2 by (simp add: encode_frame_def len1)
qed


lemma tx_do_schedule_queue [simp]:
  "tx_queue (tx_do_schedule cd) = tx_queue cd"
  "tx_push_pos (tx_do_schedule cd) = tx_push_pos cd"
  by (simp_all add: tx_do_schedule_def pio_tx_send_def report_tx_fail_def emit_def Let_def)


lemma can2040_transmit_free:
  assumes "unat (tx_push_pos cd - tx_pull_pos cd) < length (tx_queue cd)"
  shows "fst (can2040_transmit cd m) = 0"
    and "tx_push_pos (snd (can2040_transmit cd m)) = tx_push_pos cd + 1"
    and "tx_queue (snd (can2040_transmit cd m)) ! tx_qpos cd (tx_push_pos cd)
           = (let len = (if data_len m > 8 then 8 else data_len m);
                  qm = \<lparr>addr = addr m AND 0x7ff, data_len = len,
                        d1 = take (unat len) (d1 m) @ replicate (8 - unat len) 0\<rparr>;
                  n = length (stuffed_data (tx_queue cd ! tx_qpos cd (tx_push_pos cd)));
                  fin = bs_finalize (bs_pushraw (encode_frame qm n) 1 1)
              in \<lparr>msg = qm, crc = bs_crc (encode_data qm n) AND 0x7fff,
                  stuffed_words = fst fin, stuffed_data = buf (snd fin)\<rparr>)"
proof -
  have "tx_qpos cd (tx_push_pos cd) < length (tx_queue cd)"
  proof -
    from assms have "0 < length (tx_queue cd)" by (cases "tx_queue cd") auto
    then show ?thesis by (simp add: tx_qpos_def)
  qed
  then show "tx_queue (snd (can2040_transmit cd m)) ! tx_qpos cd (tx_push_pos cd)
           = (let len = (if data_len m > 8 then 8 else data_len m);
                  qm = \<lparr>addr = addr m AND 0x7ff, data_len = len,
                        d1 = take (unat len) (d1 m) @ replicate (8 - unat len) 0\<rparr>;
                  n = length (stuffed_data (tx_queue cd ! tx_qpos cd (tx_push_pos cd)));
                  fin = bs_finalize (bs_pushraw (encode_frame qm n) 1 1)
              in \<lparr>msg = qm, crc = bs_crc (encode_data qm n) AND 0x7fff,
                  stuffed_words = fst fin, stuffed_data = buf (snd fin)\<rparr>)"
    using assms
    by (simp add: can2040_transmit_def Let_def encode_frame_def encode_data_def)
  show "fst (can2040_transmit cd m) = 0"
    and "tx_push_pos (snd (can2040_transmit cd m)) = tx_push_pos cd + 1"
    using assms by (simp_all add: can2040_transmit_def Let_def)
qed






section \<open>No six equal bits in the stuffed region\<close>

lemma not_run5_idle_hist: "\<not> run5 idle_hist"
  by (simp add: run5_def idle_hist_def eval_nat_numeral)

lemma nosix_tx_frame: "nosix (tx_frame m c)"
  using stuff_bits_nosix[of idle_hist "frame_bits m @ bits_msb c 15"] nosix_append[of "rev idle_hist"]
  by (simp add: tx_frame_def not_run5_idle_hist)

lemma length_tx_frame_ge: "34 \<le> length (tx_frame m c)"
  using length_stuff_bits_ge[of "frame_bits m @ bits_msb c 15" idle_hist]
  by (simp add: tx_frame_def frame_bits_def)

text \<open>
  Claim C2. The stuffed region of a frame is the bits that \<^verbatim>\<open>can2040_transmit\<close> emits through
  \<^verbatim>\<open>bs_push\<close>: the first \<open>L\<close> bits of the slot's words, where \<open>L\<close> is the bit position of the
  encoder after the CRC. For the slot of every accepted frame, with an array of at least four
  words, every window of six consecutive bits of the region holds two adjacent bits that
  differ; header, payload and CRC are stuffed as one stream, so this includes the windows
  across two fields.
\<close>

theorem stuffed_region_no_six_equal:
  "unat (tx_push_pos cd - tx_pull_pos cd) < length (tx_queue cd) \<Longrightarrow>
   4 \<le> length (stuffed_data (tx_queue cd ! tx_qpos cd (tx_push_pos cd))) \<Longrightarrow>
   (let qt = tx_queue (snd (can2040_transmit cd m)) ! tx_qpos cd (tx_push_pos cd);
        bs = encode_frame (msg qt) (length (stuffed_data qt));
        L = unat (bitpos bs)
    in stuffed_data qt = buf (snd (bs_finalize (bs_pushraw bs 1 1)))
       \<and> 34 \<le> L \<and> L \<le> 123
       \<and> (\<forall>k. k + 6 \<le> L \<longrightarrow>
              (\<exists>j<5. tx_bit (stuffed_data qt) (k + j) \<noteq> tx_bit (stuffed_data qt) (k + j + 1))))"
proof -
  assume free: "unat (tx_push_pos cd - tx_pull_pos cd) < length (tx_queue cd)"
  define n where "n = length (stuffed_data (tx_queue cd ! tx_qpos cd (tx_push_pos cd)))"
  assume "4 \<le> length (stuffed_data (tx_queue cd ! tx_qpos cd (tx_push_pos cd)))"
  then have n4: "4 \<le> n" by (simp add: n_def)
  define len where "len = (if data_len m > 8 then 8 else data_len m)"
  define qm where "qm = \<lparr>addr = addr m AND 0x7ff, data_len = len,
                        d1 = take (unat len) (d1 m) @ replicate (8 - unat len) 0\<rparr>"
  define c where "c = bs_crc (encode_data qm n) AND 0x7fff"
  define bs where "bs = encode_frame qm n"
  define fin where "fin = bs_finalize (bs_pushraw bs 1 1)"
  define qt where "qt = tx_queue (snd (can2040_transmit cd m)) ! tx_qpos cd (tx_push_pos cd)"
  define out where "out = tx_frame qm c"
  have len8: "len \<le> 8" by (simp add: len_def not_less)
  then have dl: "data_len qm \<le> 8" by (simp add: qm_def)
  have slot: "qt = \<lparr>msg = qm, crc = c, stuffed_words = fst fin, stuffed_data = buf (snd fin)\<rparr>"
    using can2040_transmit_free(3)[OF free, of m]
    by (simp add: Let_def qt_def len_def qm_def n_def c_def fin_def bs_def)
  have inv: "bs_inv bs out"
    using encode_frame_inv(1)[OF dl n4]
    by (simp add: enc_inv_def out_def tx_frame_def c_def bs_def)
  have bl: "length (buf bs) = n"
    unfolding bs_def by (rule encode_frame_inv(2)[OF dl n4])
  have l8: "unat (data_len qm) \<le> 8"
    using dl by (simp add: word_le_nat_alt)
  have L: "length out \<le> 123" "34 \<le> length out"
    using length_tx_frame[of qm c] l8 length_tx_frame_ge[of qm c] by (simp_all add: out_def)
  have pos: "unat (bitpos bs) = length out"
    using inv by (simp add: bs_inv_def)
  have room: "length out + 1 \<le> 32 * length (buf bs)"
    using L n4 by (simp add: bl)
  have small: "length out < 2 ^ 30" using L by simp
  have ln: "length (stuffed_data qt) = n"
    using bs_finish(2)[OF inv room small] by (simp add: slot fin_def bl)
  have bit: "tx_bit (stuffed_data qt) k = out ! k" if "k < length out" for k
  proof -
    have "k < 32 * length (buf bs)" using that room by simp
    from bs_finish(3)[OF inv room small this] that show ?thesis
      by (simp add: slot fin_def)
  qed
  have six: "\<exists>j<5. tx_bit (stuffed_data qt) (k + j) \<noteq> tx_bit (stuffed_data qt) (k + j + 1)"
    if k: "k + 6 \<le> length out" for k
  proof -
    from nosix_nth[OF nosix_tx_frame[of qm c], of k] k
    obtain j where j: "j < 5" "out ! (k + j) \<noteq> out ! (k + Suc j)"
      by (auto simp: out_def)
    have "k + j < length out" "k + j + 1 < length out" using j k by simp_all
    then have "tx_bit (stuffed_data qt) (k + j) \<noteq> tx_bit (stuffed_data qt) (k + j + 1)"
      using j by (simp add: bit)
    with j show ?thesis by blast
  qed
  have m: "msg qt = qm" "stuffed_data qt = buf (snd fin)" by (simp_all add: slot)
  show ?thesis
    unfolding Let_def qt_def[symmetric] ln m(1) bs_def[symmetric] pos
    using six L by (simp add: m(2) fin_def)
qed

theorem stuffed_region_no_six_equal_witness:
  "unat (tx_push_pos (can2040_start (can2040_setup 4 5))
         - tx_pull_pos (can2040_start (can2040_setup 4 5)))
     < length (tx_queue (can2040_start (can2040_setup 4 5)))
   \<and> 4 \<le> length (stuffed_data (tx_queue (can2040_start (can2040_setup 4 5)) ! 0))
   \<and> (let qt = tx_queue (snd (can2040_transmit (can2040_start (can2040_setup 4 5)) frame_123)) ! 0
       in 34 \<le> unat (bitpos (encode_frame (msg qt) (length (stuffed_data qt))))
          \<and> (\<exists>j<5. tx_bit (stuffed_data qt) j \<noteq> tx_bit (stuffed_data qt) (j + 1)))"
proof -
  have "(let cd = can2040_start (can2040_setup 4 5)
         in tx_push_pos cd = 0 \<and> tx_pull_pos cd = 0 \<and> length (tx_queue cd) = 4
            \<and> length (stuffed_data (tx_queue cd ! 0)) = 5)"
    by code_simp
  then have f: "unat (tx_push_pos (can2040_start (can2040_setup 4 5))
                      - tx_pull_pos (can2040_start (can2040_setup 4 5)))
                  < length (tx_queue (can2040_start (can2040_setup 4 5)))"
    and q: "tx_qpos (can2040_start (can2040_setup 4 5))
              (tx_push_pos (can2040_start (can2040_setup 4 5))) = 0"
    and n: "length (stuffed_data (tx_queue (can2040_start (can2040_setup 4 5)) ! 0)) = 5"
    by (simp_all add: Let_def tx_qpos_def)
  from stuffed_region_no_six_equal[of "can2040_start (can2040_setup 4 5)" frame_123] f q n
  have "(let qt = tx_queue (snd (can2040_transmit (can2040_start (can2040_setup 4 5)) frame_123)) ! 0;
             L = unat (bitpos (encode_frame (msg qt) (length (stuffed_data qt))))
         in 34 \<le> L
            \<and> (\<forall>k. k + 6 \<le> L \<longrightarrow>
                  (\<exists>j<5. tx_bit (stuffed_data qt) (k + j)
                           \<noteq> tx_bit (stuffed_data qt) (k + j + 1))))"
    by (simp add: Let_def)
  then have "(let qt = tx_queue (snd (can2040_transmit (can2040_start (can2040_setup 4 5)) frame_123)) ! 0
       in 34 \<le> unat (bitpos (encode_frame (msg qt) (length (stuffed_data qt))))
          \<and> (\<exists>j<5. tx_bit (stuffed_data qt) j \<noteq> tx_bit (stuffed_data qt) (j + 1)))"
    unfolding Let_def
    by (elim conjE allE[where x = 0]) simp
  with f n show ?thesis by simp
qed

section \<open>The header of a received frame\<close>

lemma tx_check_self_transmit_parse [simp]:
  "parse_state (snd (tx_check_self_transmit cd)) = parse_state cd"
  "parse_crc (snd (tx_check_self_transmit cd)) = parse_crc cd"
  "parse_hdr (snd (tx_check_self_transmit cd)) = parse_hdr cd"
  "parse_msg (snd (tx_check_self_transmit cd)) = parse_msg cd"
  by (simp_all add: tx_check_self_transmit_def Let_def tx_cancel_def pio_tx_cancel_def emit_def)

lemma data_state_go_crc_parse:
  "parse_state (data_state_go_crc cd) = MS_CRC"
  "parse_crc (data_state_go_crc cd) = parse_crc cd AND 0x7fff"
  "parse_hdr (data_state_go_crc cd) = parse_hdr cd"
  "parse_msg (data_state_go_crc cd) = parse_msg cd"
  by (simp_all add: data_state_go_crc_def Let_def pio_ack_inject_def emit_def set_count_def)

lemma data_state_go_discard_parse:
  "parse_state (data_state_go_discard cd) = MS_DISCARD"
  "parse_msg (data_state_go_discard cd) = parse_msg cd"
  "parse_crc (data_state_go_discard cd) = parse_crc cd"
  by (simp_all add: data_state_go_discard_def pio_sync_enable_idle_irq_def tx_cancel_def
        pio_tx_cancel_def emit_def set_count_def)

text \<open>
  Claim C5. A header with a bit of \<open>(1<<18)|(7<<4)\<close> set sends the parser to \<open>MS_DISCARD\<close>
  and leaves the message as it was. For any other header the function is the sequence of
  steps of the claim: it records the header, sets the running CRC to \<open>crcbits 0 data 18\<close>,
  sets the identifier from bits 7 to 17, the length code clamped to 8 and a zeroed payload
  (the state \<open>cd1\<close>), and then goes to \<open>MS_CRC\<close> if the clamped length is 0 and to \<open>MS_DATA\<close>
  otherwise. The transition to \<open>MS_CRC\<close> keeps the 15 bits of the CRC and clears the bits
  above them, which \<open>crcbits\<close> never reads; the transition to \<open>MS_DATA\<close> keeps all of it.
\<close>

theorem data_state_update_start_result:
  "(data AND (push_bit 18 1 OR push_bit 4 7) \<noteq> 0 \<longrightarrow>
      data_state_update_start cd data = data_state_go_discard cd
      \<and> parse_state (data_state_update_start cd data) = MS_DISCARD
      \<and> parse_msg (data_state_update_start cd data) = parse_msg cd)
   \<and> (data AND (push_bit 18 1 OR push_bit 4 7) = 0 \<longrightarrow>
      (let dlc = (if data AND 0xf > 8 then 8 else data AND 0xf);
           cd1 = cd\<lparr>parse_hdr := data, parse_crc := crcbits 0 data 18,
                    parse_msg := \<lparr>addr = drop_bit 7 data AND 0x7ff, data_len = dlc,
                                  d1 = replicate 8 0\<rparr>,
                    parse_datapos := 0\<rparr>;
           cd' = data_state_update_start cd data
       in cd' = pio_sync_enable_idle_irq
                  (if dlc = 0 then data_state_go_crc cd1
                   else set_count (cd1\<lparr>parse_state := MS_DATA\<rparr>) 8)
          \<and> parse_hdr cd' = data
          \<and> parse_crc cd' AND 0x7fff = crcbits 0 data 18 AND 0x7fff
          \<and> parse_crc cd' = (if dlc = 0 then crcbits 0 data 18 AND 0x7fff
                             else crcbits 0 data 18)
          \<and> addr (parse_msg cd') = drop_bit 7 data AND 0x7ff
          \<and> data_len (parse_msg cd') = dlc \<and> dlc \<le> 8
          \<and> d1 (parse_msg cd') = replicate 8 0
          \<and> parse_state cd' = (if dlc = 0 then MS_CRC else MS_DATA)))"
  by (auto simp: data_state_update_start_def Let_def data_state_go_crc_parse
        data_state_go_discard_parse pio_sync_enable_idle_irq_def emit_def set_count_def
        not_less word_le_0_iff and.assoc)

theorem data_state_update_start_result_witness:
  "(0x10 :: u32) AND (push_bit 18 1 OR push_bit 4 7) \<noteq> 0
   \<and> parse_state (data_state_update_start (can2040_setup 4 5) 0x10) = MS_DISCARD
   \<and> (0x80 :: u32) AND (push_bit 18 1 OR push_bit 4 7) = 0
   \<and> parse_state (data_state_update_start (can2040_setup 4 5) 0x80) = MS_CRC
   \<and> parse_state (data_state_update_start (can2040_setup 4 5) 0x8f) = MS_DATA
   \<and> data_len (parse_msg (data_state_update_start (can2040_setup 4 5) 0x8f)) = 8"
proof -
  have a: "(0x10 :: u32) AND (push_bit 18 1 OR push_bit 4 7) \<noteq> 0"
    and b: "(0x80 :: u32) AND (push_bit 18 1 OR push_bit 4 7) = 0"
    and c: "(0x8f :: u32) AND (push_bit 18 1 OR push_bit 4 7) = 0"
    and d: "(0x80 :: u32) AND 0xf = 0" and e: "(0x8f :: u32) AND 0xf = 0xf"
    by simp_all
  from a b c d e
    data_state_update_start_result[of "0x10" "can2040_setup 4 5"]
    data_state_update_start_result[of "0x80" "can2040_setup 4 5"]
    data_state_update_start_result[of "0x8f" "can2040_setup 4 5"]
  show ?thesis
    by (simp add: Let_def data_state_go_discard_parse data_state_go_crc_parse
          pio_sync_enable_idle_irq_def emit_def set_count_def)
qed

end
